theory Spec2Isabelle
  imports Main "HOL-Library.Sublist"
begin

section \<open>KaraCopy: selecting lyrics, media and cover art from a music library\<close>

text \<open>
  A shallow embedding of \<^verbatim>\<open>karacopy.py\<close>. Strings are ASCII \<^typ>\<open>string\<close>s. The
  script's \<^verbatim>\<open>os.path\<close> is taken to be \<^verbatim>\<open>posixpath\<close>, so \<^verbatim>\<open>os.path.sep\<close> is the
  slash. The Python built-ins and library functions the script calls are modelled first,
  each after its documented behaviour; the functions of the script follow, under their
  own names.
\<close>

subsection \<open>Errors\<close>

text \<open>
  An exception that nothing catches ends the run with a traceback; \<^verbatim>\<open>sys.exit(1)\<close>
  ends it with status 1. The lines printed just before the exit are kept with it.
\<close>

datatype exn = IndexError | ValueError string | Exception string

datatype error = Raised exn | SystemExit int "string list"

text \<open>
  What \<^verbatim>\<open>print(e)\<close> shows. A \<open>ValueError\<close> carries the literal that \<^verbatim>\<open>int\<close>
  rejected; its \<^verbatim>\<open>repr\<close> is the literal between quotes when it has no quote, backslash
  or control character.
\<close>

fun str_of_exn :: "exn \<Rightarrow> string" where
  "str_of_exn IndexError = ''list index out of range''"
| "str_of_exn (ValueError s) =
     ''invalid literal for int() with base 10: '' @ [CHR 0x27] @ s @ [CHR 0x27]"
| "str_of_exn (Exception m) = m"

subsection \<open>String built-ins\<close>

definition sep :: char where
  "sep = CHR ''/''"

text \<open>\<^verbatim>\<open>s.strip(chars)\<close>: drops from both ends every character that occurs in \<open>chars\<close>.\<close>

definition str_strip :: "string \<Rightarrow> string \<Rightarrow> string" where
  "str_strip chars s =
     rev (dropWhile (\<lambda>c. c \<in> set chars) (rev (dropWhile (\<lambda>c. c \<in> set chars) s)))"

text \<open>\<^verbatim>\<open>s.split(c)\<close> for a one-character separator: never empty, keeps empty fields.\<close>

fun str_split :: "char \<Rightarrow> string \<Rightarrow> string list" where
  "str_split c [] = [[]]"
| "str_split c (x # xs) =
     (if x = c then [] # str_split c xs
      else (case str_split c xs of
              [] \<Rightarrow> [[x]]
            | w # ws \<Rightarrow> (x # w) # ws))"

text \<open>\<^verbatim>\<open>s.rfind(c)\<close>: the index of the last occurrence of \<open>c\<close>, or \<open>-1\<close>.\<close>

fun str_rfind :: "char \<Rightarrow> string \<Rightarrow> int" where
  "str_rfind c [] = -1"
| "str_rfind c (x # xs) =
     (let r = str_rfind c xs
      in if 0 \<le> r then r + 1 else if x = c then 0 else -1)"

text \<open>\<^verbatim>\<open>s[i:j]\<close> for \<open>0 \<le> i\<close> and \<open>0 \<le> j\<close>.\<close>

definition str_slice :: "string \<Rightarrow> int \<Rightarrow> int \<Rightarrow> string" where
  "str_slice s i j = take (nat j - nat i) (drop (nat i) s)"

subsection \<open>\<^verbatim>\<open>os.path\<close>\<close>

text \<open>
  \<^verbatim>\<open>posixpath.join(a, b)\<close>: an absolute \<open>b\<close> replaces \<open>a\<close>; otherwise \<open>b\<close> is appended,
  after a slash unless \<open>a\<close> is empty or already ends with one.
\<close>

definition os_path_join :: "string \<Rightarrow> string \<Rightarrow> string" where
  "os_path_join a b =
     (if b \<noteq> [] \<and> hd b = sep then b
      else if a = [] \<or> last a = sep then a @ b
      else a @ sep # b)"

text \<open>
  \<^verbatim>\<open>posixpath.splitext(p)\<close>: splits at the last dot, when that dot lies after the last
  slash and some character between the slash and the dot is not a dot; otherwise the
  extension is empty.
\<close>

definition os_path_splitext :: "string \<Rightarrow> string \<times> string" where
  "os_path_splitext p =
     (let sepIndex = str_rfind sep p;
          dotIndex = str_rfind CHR ''.'' p
      in if sepIndex < dotIndex
            \<and> list_ex (\<lambda>c. c \<noteq> CHR ''.'') (str_slice p (sepIndex + 1) dotIndex)
         then (take (nat dotIndex) p, drop (nat dotIndex) p)
         else (p, []))"

subsection \<open>Configuration\<close>

definition EXTS_MEDIA :: "string list" where
  "EXTS_MEDIA = [''mp3'', ''m4a'']"

definition EXTS_ART :: "string list" where
  "EXTS_ART = [''jpg'']"

definition EXTS_LYRICS :: "string list" where
  "EXTS_LYRICS = [''lrc'']"

definition ALLOWED_EXTS :: "string list" where
  "ALLOWED_EXTS = EXTS_MEDIA @ EXTS_ART @ EXTS_LYRICS"

subsection \<open>Path classification\<close>

definition get_path_depth :: "string \<Rightarrow> int" where
  "get_path_depth path = int (length (str_split sep (str_strip [sep] path)))"

definition get_file_ext :: "string \<Rightarrow> string" where
  "get_file_ext path = (let (_, ext) = os_path_splitext path in str_strip ''.'' ext)"

definition is_file_type_media :: "string \<Rightarrow> bool" where
  "is_file_type_media path = (get_file_ext path \<in> set EXTS_MEDIA)"

subsection \<open>Destination mapping\<close>

text \<open>
  The part of \<^verbatim>\<open>copy_file\<close> that computes \<^verbatim>\<open>dest_file_abspath\<close>; the directory creation
  and the copy that follow take this path as it is.
\<close>

definition copy_file_dest :: "string \<Rightarrow> string \<Rightarrow> string \<Rightarrow> error + string" where
  "copy_file_dest source_dir dest_dir source_file_abspath =
     (if \<not> prefix source_dir source_file_abspath
      then Inl (Raised (Exception ''Source file path doesn't match source directory''))
      else
        let rel_file_path = str_strip [sep] (str_strip source_dir source_file_abspath)
        in Inr (os_path_join dest_dir rel_file_path))"


subsection \<open>\<^verbatim>\<open>int\<close> of a string\<close>

definition is_space :: "char \<Rightarrow> bool" where
  "is_space c = (c \<in> set [CHR 0x09, CHR 0x0A, CHR 0x0B, CHR 0x0C, CHR 0x0D, CHR 0x20])"

definition is_digit :: "char \<Rightarrow> bool" where
  "is_digit c = (c \<in> set ''0123456789'')"

definition digit_val :: "char \<Rightarrow> int" where
  "digit_val c = of_char c - 48"

text \<open>
  The digits after the first: a digit extends the number, an underscore is allowed
  only between two digits.
\<close>

fun py_digits :: "int \<Rightarrow> string \<Rightarrow> int option" where
  "py_digits acc [] = Some acc"
| "py_digits acc [c] = (if is_digit c then Some (10 * acc + digit_val c) else None)"
| "py_digits acc (c # d # cs) =
     (if is_digit c then py_digits (10 * acc + digit_val c) (d # cs)
      else if c = CHR ''_'' \<and> is_digit d then py_digits acc (d # cs)
      else None)"

text \<open>
  \<^verbatim>\<open>int(s)\<close> in base 10: surrounding whitespace is dropped, one sign is allowed, then
  come the digits. \<open>None\<close> stands for the \<open>ValueError\<close>. (The interpreter's limit on
  the number of digits is not modelled.)
\<close>

definition py_unsigned :: "string \<Rightarrow> int option" where
  "py_unsigned u =
     (case u of
        [] \<Rightarrow> None
      | c # cs \<Rightarrow> if is_digit c then py_digits (digit_val c) cs else None)"

definition py_int :: "string \<Rightarrow> int option" where
  "py_int s =
     (let t = rev (dropWhile is_space (rev (dropWhile is_space s)))
      in case t of
           [] \<Rightarrow> None
         | c # cs \<Rightarrow>
             if c = CHR ''-'' then map_option uminus (py_unsigned cs)
             else if c = CHR ''+'' then py_unsigned cs
             else py_unsigned t)"

subsection \<open>The year pattern\<close>

text \<open>
  \<^verbatim>\<open>re.match\<close> of \<^verbatim>\<open>\[(\d{4})\]\<close> at the start of a string: the group, when the
  string starts with an opening bracket, four digits and a closing bracket.
\<close>

fun match_year :: "string \<Rightarrow> string option" where
  "match_year (b # d1 # d2 # d3 # d4 # e # _) =
     (if b = CHR ''['' \<and> is_digit d1 \<and> is_digit d2 \<and> is_digit d3 \<and> is_digit d4
         \<and> e = CHR '']''
      then Some [d1, d2, d3, d4] else None)"
| "match_year _ = None"

text \<open>
  \<^verbatim>\<open>re.findall\<close> of the pattern: scans from the left; after a match the scan resumes
  behind it, otherwise one character further.
\<close>

fun re_findall_year :: "string \<Rightarrow> string list" where
  "re_findall_year [] = []"
| "re_findall_year (c # cs) =
     (case match_year (c # cs) of
        Some g \<Rightarrow> g # re_findall_year (drop 5 cs)
      | None \<Rightarrow> re_findall_year cs)"

subsection \<open>The file system\<close>

text \<open>
  A tree of directories and files, without symbolic links. A directory lists its
  entries in the order in which \<^verbatim>\<open>os.scandir\<close> reports them.
\<close>

datatype node = File | Dir "(string \<times> node) list"

fun is_dir :: "node \<Rightarrow> bool" where
  "is_dir File = False"
| "is_dir (Dir _) = True"

text \<open>
  Path resolution, component by component, on the stack of the directories entered
  so far: empty components and \<open>.\<close> stay, \<open>..\<close> goes up (the root is its own parent), a
  name enters the entry of that name. Nothing can follow a file.
\<close>

fun resolve_from :: "node list \<Rightarrow> string list \<Rightarrow> node option" where
  "resolve_from [] cs = None"
| "resolve_from (cur # up) [] = Some cur"
| "resolve_from (File # up) (c # cs) = None"
| "resolve_from (Dir es # up) (c # cs) =
     (if c = [] \<or> c = ''.'' then resolve_from (Dir es # up) cs
      else if c = ''..'' then resolve_from (if up = [] then [Dir es] else up) cs
      else (case map_of es c of
              None \<Rightarrow> None
            | Some n \<Rightarrow> resolve_from (n # Dir es # up) cs))"

text \<open>The node a path names; the working directory is the root. The empty path names nothing.\<close>

definition os_stat :: "node \<Rightarrow> string \<Rightarrow> node option" where
  "os_stat fs path = (if path = [] then None else resolve_from [fs] (str_split sep path))"

definition os_path_exists :: "node \<Rightarrow> string \<Rightarrow> bool" where
  "os_path_exists fs path = (os_stat fs path \<noteq> None)"

text \<open>
  \<^verbatim>\<open>os.walk(top, topdown)\<close>: one triple (directory path, names of its subdirectories,
  names of its other entries) for every directory below \<open>top\<close>, the path of a
  subdirectory being \<^verbatim>\<open>join(top, name)\<close>; a directory comes before its subdirectories
  when \<open>topdown\<close> holds and after them otherwise. A \<open>top\<close> that is no directory yields
  nothing.
\<close>

fun os_walk_node :: "bool \<Rightarrow> string \<Rightarrow> node \<Rightarrow> (string \<times> string list \<times> string list) list" where
  "os_walk_node topdown top_dir File = []"
| "os_walk_node topdown top_dir (Dir es) =
     (let dirs = map fst (filter (\<lambda>e. is_dir (snd e)) es);
          nondirs = map fst (filter (\<lambda>e. \<not> is_dir (snd e)) es);
          below = concat (map (\<lambda>e. os_walk_node topdown (os_path_join top_dir (fst e)) (snd e))
                              (filter (\<lambda>e. is_dir (snd e)) es))
      in if topdown then (top_dir, dirs, nondirs) # below
         else below @ [(top_dir, dirs, nondirs)])"

definition os_walk :: "node \<Rightarrow> bool \<Rightarrow> string \<Rightarrow> (string \<times> string list \<times> string list) list" where
  "os_walk fs topdown top_dir =
     (case os_stat fs top_dir of
        Some (Dir es) \<Rightarrow> os_walk_node topdown top_dir (Dir es)
      | _ \<Rightarrow> [])"

subsection \<open>Album selection\<close>

text \<open>
  The year of an album name: the last match of the pattern, as an integer. The
  \<^verbatim>\<open>try\<close> block catches the \<open>IndexError\<close> of an empty match list (and any error of
  \<^verbatim>\<open>int\<close>), prints the album name and the exception, and exits with status 1.
\<close>

definition parse_album_year :: "string \<Rightarrow> error + int" where
  "parse_album_year album_name =
     (let attempt =
            (case re_findall_year album_name of
               [] \<Rightarrow> Inl IndexError
             | g # gs \<Rightarrow>
                 (case py_int (last (g # gs)) of
                    None \<Rightarrow> Inl (ValueError (last (g # gs)))
                  | Some y \<Rightarrow> Inr y))
      in case attempt of
           Inl e \<Rightarrow> Inl (SystemExit 1 [''Exception processing album: '' @ album_name, str_of_exn e])
         | Inr y \<Rightarrow> Inr y)"

text \<open>
  The condition of the year filter. \<^verbatim>\<open>or\<close> and \<^verbatim>\<open>and\<close> evaluate from the left and stop
  early, so a bound is converted only when it is reached; a bound that is neither
  \<open>any\<close> nor an integer literal raises \<open>ValueError\<close>.
\<close>

definition year_in_range :: "int \<Rightarrow> string \<Rightarrow> string \<Rightarrow> error + bool" where
  "year_in_range album_year min_year max_year =
     (case (if min_year = ''any'' then Inr True
            else case py_int min_year of
                   None \<Rightarrow> Inl (Raised (ValueError min_year))
                 | Some lo \<Rightarrow> Inr (lo \<le> album_year)) of
        Inl e \<Rightarrow> Inl e
      | Inr min_ok \<Rightarrow>
          if \<not> min_ok then Inr False
          else if max_year = ''any'' then Inr True
          else case py_int max_year of
                 None \<Rightarrow> Inl (Raised (ValueError max_year))
               | Some hi \<Rightarrow> Inr (album_year \<le> hi))"

text \<open>The loop over \<^verbatim>\<open>EXTS_MEDIA\<close> for one lyrics file.\<close>

fun select_media :: "node \<Rightarrow> string \<Rightarrow> string \<Rightarrow> string list \<Rightarrow> string list \<Rightarrow> string list" where
  "select_media fs root basename [] ret = ret"
| "select_media fs root basename (ext # exts) ret =
     (let mf = os_path_join root (basename @ ''.'' @ ext)
      in select_media fs root basename exts
           (if os_path_exists fs mf then ret @ [mf] else ret))"

text \<open>The loop over the files of one directory of the walk.\<close>

fun select_files :: "node \<Rightarrow> string \<Rightarrow> string list \<Rightarrow> string list \<Rightarrow> string list" where
  "select_files fs root [] ret = ret"
| "select_files fs root (f # files) ret =
     (let ext = get_file_ext f
      in if ext \<in> set EXTS_LYRICS then
           (let ret1 = ret @ [os_path_join root f];
                basename = fst (os_path_splitext f)
            in select_files fs root files (select_media fs root basename EXTS_MEDIA ret1))
         else if ext \<in> set EXTS_ART then
           select_files fs root files (ret @ [os_path_join root f])
         else select_files fs root files ret)"

text \<open>The loop over the walk of the album folder.\<close>

fun select_walk :: "node \<Rightarrow> (string \<times> string list \<times> string list) list \<Rightarrow> string list \<Rightarrow> string list" where
  "select_walk fs [] ret = ret"
| "select_walk fs ((root, _, files) # rest) ret =
     select_walk fs rest (select_files fs root files ret)"

text \<open>
  \<^verbatim>\<open>tokens[-2]\<close> raises \<open>IndexError\<close>, outside the \<^verbatim>\<open>try\<close> block, when the path has no
  separator.
\<close>

definition process_album_dir :: "node \<Rightarrow> string \<Rightarrow> string \<Rightarrow> string \<Rightarrow> error + string list" where
  "process_album_dir fs album_path min_year max_year =
     (let tokens = str_split sep album_path;
          album_name = last tokens
      in if length tokens < 2 then Inl (Raised IndexError)
         else
           case parse_album_year album_name of
             Inl e \<Rightarrow> Inl e
           | Inr album_year \<Rightarrow>
               (case year_in_range album_year min_year max_year of
                  Inl e \<Rightarrow> Inl e
                | Inr in_range \<Rightarrow>
                    if in_range then Inr (select_walk fs (os_walk fs True album_path) [])
                    else Inr []))"

subsection \<open>The library walk\<close>

text \<open>The loop over the subdirectory names of one directory of the walk.\<close>

fun walk_dirs :: "node \<Rightarrow> int \<Rightarrow> string \<Rightarrow> string \<Rightarrow> string \<Rightarrow> string list \<Rightarrow> string list
    \<Rightarrow> error + string list" where
  "walk_dirs fs base_depth min_year max_year root [] files = Inr files"
| "walk_dirs fs base_depth min_year max_year root (name # dirs) files =
     (let fullpath = os_path_join root name;
          current_depth = get_path_depth fullpath
      in if current_depth - base_depth = 2 then
           (case process_album_dir fs fullpath min_year max_year of
              Inl e \<Rightarrow> Inl e
            | Inr sel \<Rightarrow> walk_dirs fs base_depth min_year max_year root dirs (files @ sel))
         else walk_dirs fs base_depth min_year max_year root dirs files)"

text \<open>The loop over the walk of the library.\<close>

fun walk_roots :: "node \<Rightarrow> int \<Rightarrow> string \<Rightarrow> string \<Rightarrow> (string \<times> string list \<times> string list) list
    \<Rightarrow> string list \<Rightarrow> error + string list" where
  "walk_roots fs base_depth min_year max_year [] files = Inr files"
| "walk_roots fs base_depth min_year max_year ((root, dirs, _) # rest) files =
     (case walk_dirs fs base_depth min_year max_year root dirs files of
        Inl e \<Rightarrow> Inl e
      | Inr files' \<Rightarrow> walk_roots fs base_depth min_year max_year rest files')"

definition walk_media_dir :: "node \<Rightarrow> string \<Rightarrow> string \<Rightarrow> string \<Rightarrow> error + string list" where
  "walk_media_dir fs media_path min_year max_year =
     (let base_depth = get_path_depth media_path
      in walk_roots fs base_depth min_year max_year (os_walk fs False media_path) [])"

section \<open>Notions of the specification\<close>

text \<open>
  A bracketed four-digit token of \<open>s\<close> starts at index \<open>i\<close>; \<open>s\<close> has such a token;
  the token at \<open>i\<close> is the rightmost one; it is the only one.
\<close>

definition year_token_at :: "string \<Rightarrow> nat \<Rightarrow> bool" where
  "year_token_at s i =
     (i + 6 \<le> length s \<and> s ! i = CHR ''['' \<and> is_digit (s ! (i + 1)) \<and> is_digit (s ! (i + 2))
      \<and> is_digit (s ! (i + 3)) \<and> is_digit (s ! (i + 4)) \<and> s ! (i + 5) = CHR '']'')"

definition has_year_token :: "string \<Rightarrow> bool" where
  "has_year_token s = list_ex (year_token_at s) [0..<length s]"

definition last_year_token :: "string \<Rightarrow> nat \<Rightarrow> bool" where
  "last_year_token s i =
     (year_token_at s i \<and> list_all (\<lambda>j. \<not> year_token_at s j) [Suc i..<length s])"

definition only_year_token :: "string \<Rightarrow> nat \<Rightarrow> bool" where
  "only_year_token s i =
     (year_token_at s i \<and> list_all (\<lambda>j. j = i \<or> \<not> year_token_at s j) [0..<length s])"

text \<open>The integer that a string of decimal digits denotes.\<close>

definition decimal_value :: "string \<Rightarrow> int" where
  "decimal_value ds = foldl (\<lambda>a c. 10 * a + digit_val c) 0 ds"

definition is_letter :: "char \<Rightarrow> bool" where
  "is_letter c = (c \<in> set ''abcdefghijklmnopqrstuvwxyzABCDEFGHIJKLMNOPQRSTUVWXYZ'')"

text \<open>The name of an album folder: the last segment of its path.\<close>

definition album_name_of :: "string \<Rightarrow> string" where
  "album_name_of album_path = last (str_split sep album_path)"

text \<open>An album folder passes the year filter: its year parses and lies in the range.\<close>

definition passes_year_filter :: "string \<Rightarrow> string \<Rightarrow> string \<Rightarrow> bool" where
  "passes_year_filter album_path min_year max_year =
     (case parse_album_year (album_name_of album_path) of
        Inl _ \<Rightarrow> False
      | Inr y \<Rightarrow> year_in_range y min_year max_year = Inr True)"

text \<open>
  The same-directory same-stem sibling of a file, for a media extension.
\<close>

definition media_sibling :: "string \<Rightarrow> string \<Rightarrow> string \<Rightarrow> string" where
  "media_sibling root f ext = os_path_join root (fst (os_path_splitext f) @ ''.'' @ ext)"

text \<open>
  The node reached from a node by entering the entries of the given names in turn:
  a directory of the subtree, or a file in it.
\<close>

fun descend :: "node \<Rightarrow> string list \<Rightarrow> node option" where
  "descend n [] = Some n"
| "descend File (c # cs) = None"
| "descend (Dir es) (c # cs) =
     (case map_of es c of
        None \<Rightarrow> None
      | Some n \<Rightarrow> descend n cs)"

text \<open>What one file of a walked directory contributes to the selection.\<close>

definition selected_for :: "node \<Rightarrow> string \<Rightarrow> string \<Rightarrow> string list" where
  "selected_for fs root f =
     (if get_file_ext f \<in> set EXTS_LYRICS then
        os_path_join root f # filter (os_path_exists fs) (map (media_sibling root f) EXTS_MEDIA)
      else if get_file_ext f \<in> set EXTS_ART then [os_path_join root f]
      else [])"

text \<open>
  The depth of a path in the words of the specification: the number of non-empty
  segments after trimming leading and trailing separators.
\<close>

definition segment_depth :: "string \<Rightarrow> int" where
  "segment_depth path =
     int (length (filter (\<lambda>seg. seg \<noteq> []) (str_split sep (str_strip [sep] path))))"

text \<open>
  The directories that the library walk meets, in the order of the walk, and those
  among them that it takes for album folders.
\<close>

definition candidate_dirs :: "node \<Rightarrow> string \<Rightarrow> string list" where
  "candidate_dirs fs media_path =
     concat (map (\<lambda>(root, dirs, _). map (os_path_join root) dirs) (os_walk fs False media_path))"

definition album_dirs :: "node \<Rightarrow> string \<Rightarrow> string list" where
  "album_dirs fs media_path =
     filter (\<lambda>p. get_path_depth p - get_path_depth media_path = 2) (candidate_dirs fs media_path)"

text \<open>Album selection on a list of folders in turn, stopping at the first failure.\<close>

fun process_albums :: "node \<Rightarrow> string \<Rightarrow> string \<Rightarrow> string list \<Rightarrow> string list \<Rightarrow> error + string list" where
  "process_albums fs min_year max_year [] files = Inr files"
| "process_albums fs min_year max_year (d # ds) files =
     (case process_album_dir fs d min_year max_year of
        Inl e \<Rightarrow> Inl e
      | Inr sel \<Rightarrow> process_albums fs min_year max_year ds (files @ sel))"

section \<open>Example libraries\<close>

definition example_album :: node where
  "example_album =
     Dir [(''01.lrc'', File), (''01.mp3'', File), (''02.mp3'', File), (''cover.jpg'', File),
          (''notes'', File), (''.lrc'', File),
          (''CD2'', Dir [(''03.lrc'', File), (''03.m4a'', File)])]"

definition example_library :: node where
  "example_library =
     Dir [(''music'',
       Dir [(''ArtistX'',
         Dir [(''Album [1985]'', example_album),
              (''Instrumental [1987]'', Dir [(''cover.jpg'', File), (''track.mp3'', File)]),
              (''Live [1975]'', Dir [(''a.lrc'', File)])])])]"

definition example_selection :: "string list" where
  "example_selection =
     [''/music/ArtistX/Album [1985]/01.lrc'', ''/music/ArtistX/Album [1985]/01.mp3'',
      ''/music/ArtistX/Album [1985]/cover.jpg'', ''/music/ArtistX/Album [1985]/CD2/03.lrc'',
      ''/music/ArtistX/Album [1985]/CD2/03.m4a'']"

definition untitled_library :: node where
  "untitled_library =
     Dir [(''music'',
       Dir [(''ArtistX'',
         Dir [(''Album [1985]'', example_album),
              (''Untitled'', Dir [(''b.lrc'', File)]),
              (''Later [1999]'', Dir [(''c.lrc'', File)])])])]"

definition root_library :: node where
  "root_library =
     Dir [(''ArtistX'',
       Dir [(''Album [1985]'', Dir [(''01.lrc'', File), (''01.mp3'', File)])])]"

definition root_library_discs :: node where
  "root_library_discs =
     Dir [(''ArtistX'',
       Dir [(''Album [1985]'',
         Dir [(''01.lrc'', File), (''Bonus [1999]'', Dir [(''02.lrc'', File)])])])]"

section \<open>Strings and paths\<close>


lemma str_rfind_notin: "c \<notin> set s \<Longrightarrow> str_rfind c s = -1"
  by (induction s) (auto simp: Let_def)

lemma str_rfind_in: "c \<in> set s \<Longrightarrow> 0 \<le> str_rfind c s"
  by (induction s) (auto simp: Let_def)

lemma str_rfind_append:
  "str_rfind c (xs @ ys) = (if c \<in> set ys then int (length xs) + str_rfind c ys else str_rfind c xs)"
  by (induction xs) (auto simp: Let_def str_rfind_notin dest: str_rfind_in)

lemma str_rfind_last: "c \<notin> set ys \<Longrightarrow> str_rfind c (xs @ c # ys) = int (length xs)"
  using str_rfind_append [of c xs "c # ys"] by (simp add: Let_def str_rfind_notin)

lemma str_rfind_decomp:
  "0 \<le> str_rfind c s \<Longrightarrow> \<exists>xs ys. s = xs @ c # ys \<and> c \<notin> set ys \<and> str_rfind c s = int (length xs)"
proof -
  assume a: "0 \<le> str_rfind c s"
  have "c \<in> set s" using a str_rfind_notin [of c s] by fastforce
  then obtain xs ys where s: "s = xs @ c # ys" and n: "c \<notin> set ys"
    using split_list_last by fastforce
  show ?thesis using s n str_rfind_last [OF n, of xs] by blast
qed

lemma splitext_split:
  assumes "h = [] \<or> last h = sep" and "sep \<notin> set b" and "sep \<notin> set x" and "CHR ''.'' \<notin> set x"
    and "\<exists>c\<in>set b. c \<noteq> CHR ''.''"
  shows "os_path_splitext (h @ b @ CHR ''.'' # x) = (h @ b, CHR ''.'' # x)"
proof -
  have dot: "str_rfind CHR ''.'' (h @ b @ CHR ''.'' # x) = int (length h + length b)"
    using str_rfind_last [OF assms(4), of "h @ b"] by simp
  have nosep: "sep \<notin> set (b @ CHR ''.'' # x)" using assms(2,3) by (simp add: sep_def)
  have sp: "str_rfind sep (h @ b @ CHR ''.'' # x) = int (length h) - 1"
  proof (cases "h = []")
    case True
    then show ?thesis using nosep by (simp add: str_rfind_notin)
  next
    case False
    then have h: "h = butlast h @ [sep]" using assms(1) by (metis append_butlast_last_id)
    have "str_rfind sep h = int (length (butlast h))"
      using str_rfind_last [of sep "[]" "butlast h"] h by simp
    moreover have "str_rfind sep (h @ b @ CHR ''.'' # x) = str_rfind sep h"
      using str_rfind_append [of sep h "b @ CHR ''.'' # x"] nosep by simp
    ultimately show ?thesis using False by (cases h) simp_all
  qed
  have ex: "list_ex (\<lambda>c. c \<noteq> CHR ''.'') b" using assms(5) by (simp add: list_ex_iff)
  show ?thesis
    unfolding os_path_splitext_def Let_def dot sp str_slice_def
    using ex by (simp add: nat_diff_distrib')
qed

lemma splitext_cases:
  assumes "os_path_splitext p \<noteq> (p, [])"
  shows "\<exists>h b x. p = h @ b @ CHR ''.'' # x \<and> (h = [] \<or> last h = sep) \<and> sep \<notin> set b
           \<and> sep \<notin> set x \<and> CHR ''.'' \<notin> set x \<and> (\<exists>c\<in>set b. c \<noteq> CHR ''.'')"
proof -
  let ?si = "str_rfind sep p" and ?di = "str_rfind CHR ''.'' p"
  from assms have lt: "?si < ?di"
    and ex: "list_ex (\<lambda>c. c \<noteq> CHR ''.'') (str_slice p (?si + 1) ?di)"
    by (auto simp: os_path_splitext_def Let_def split: if_splits)
  have si: "-1 \<le> ?si"
    using str_rfind_notin [of sep p] str_rfind_in [of sep p] by (cases "sep \<in> set p") auto
  with lt have "0 \<le> ?di" by simp
  then obtain xs ys where p: "p = xs @ CHR ''.'' # ys" and ys: "CHR ''.'' \<notin> set ys"
    and di: "?di = int (length xs)"
    using str_rfind_decomp by blast
  show ?thesis
  proof (cases "sep \<in> set p")
    case False
    then have "?si = -1" by (simp add: str_rfind_notin)
    then have "str_slice p (?si + 1) ?di = xs" using di p by (simp add: str_slice_def)
    then have "\<exists>c\<in>set xs. c \<noteq> CHR ''.''" using ex by (simp add: list_ex_iff)
    then show ?thesis using p ys False by (intro exI [of _ "[]"] exI [of _ xs] exI [of _ ys]) auto
  next
    case True
    then have "0 \<le> ?si" by (rule str_rfind_in)
    then obtain us vs where p': "p = us @ sep # vs" and vs: "sep \<notin> set vs"
      and sidx: "?si = int (length us)"
      using str_rfind_decomp by blast
    from lt di sidx have len: "length us < length xs" by simp
    from p p' have "us @ sep # vs = xs @ CHR ''.'' # ys" by simp
    then obtain w where "us = xs @ w \<and> w @ sep # vs = CHR ''.'' # ys
        \<or> us @ w = xs \<and> sep # vs = w @ CHR ''.'' # ys"
      unfolding append_eq_append_conv2 by blast
    with len have w: "us @ w = xs" "sep # vs = w @ CHR ''.'' # ys" by auto
    with len obtain b where wb: "w = sep # b" and vsb: "vs = b @ CHR ''.'' # ys"
      by (cases w) auto
    have "nat (?si + 1) = Suc (length us)" "nat ?di = Suc (length us + length b)"
      using sidx di w wb by auto
    then have "str_slice p (?si + 1) ?di = b"
      unfolding str_slice_def using p' vsb by simp
    then have "\<exists>c\<in>set b. c \<noteq> CHR ''.''" using ex by (simp add: list_ex_iff)
    moreover have "p = (us @ [sep]) @ b @ CHR ''.'' # ys" using p' vsb by simp
    ultimately show ?thesis using vs vsb ys
      by (intro exI [of _ "us @ [sep]"] exI [of _ b] exI [of _ ys]) auto
  qed
qed

lemma splitext_ext_cases:
  "snd (os_path_splitext p) = [] \<or>
   (\<exists>h b x. p = h @ b @ CHR ''.'' # x \<and> (h = [] \<or> last h = sep) \<and> sep \<notin> set b
      \<and> sep \<notin> set x \<and> CHR ''.'' \<notin> set x \<and> (\<exists>c\<in>set b. c \<noteq> CHR ''.'')
      \<and> os_path_splitext p = (h @ b, CHR ''.'' # x))"
proof (cases "os_path_splitext p = (p, [])")
  case True
  then show ?thesis by simp
next
  case False
  from splitext_cases [OF False] obtain h b x where
    d: "p = h @ b @ CHR ''.'' # x" "h = [] \<or> last h = sep" "sep \<notin> set b" "sep \<notin> set x"
      "CHR ''.'' \<notin> set x" "\<exists>c\<in>set b. c \<noteq> CHR ''.''"
    by blast
  then have "os_path_splitext p = (h @ b, CHR ''.'' # x)" using splitext_split by simp
  with d show ?thesis by blast
qed

lemma strip_dot_ext: "CHR ''.'' \<notin> set x \<Longrightarrow> str_strip ''.'' (CHR ''.'' # x) = x"
proof -
  assume a: "CHR ''.'' \<notin> set x"
  have "rev x = [] \<or> hd (rev x) \<noteq> CHR ''.''"
    using a by (cases x rule: rev_cases) auto
  then have "dropWhile (\<lambda>c. c \<in> set ''.'') (rev x) = rev x"
    by (simp add: dropWhile_eq_self_iff)
  moreover have "dropWhile (\<lambda>c. c \<in> set ''.'') x = x"
    using a by (cases x) auto
  ultimately show ?thesis by (simp add: str_strip_def)
qed

lemma get_file_ext_split:
  assumes "h = [] \<or> last h = sep" and "sep \<notin> set b" and "sep \<notin> set x" and "CHR ''.'' \<notin> set x"
    and "\<exists>c\<in>set b. c \<noteq> CHR ''.''"
  shows "get_file_ext (h @ b @ CHR ''.'' # x) = x"
  using splitext_split [OF assms] strip_dot_ext [OF assms(4)] by (simp add: get_file_ext_def)

lemma get_file_ext_cases:
  "get_file_ext p = [] \<or>
   (\<exists>h b. p = h @ b @ CHR ''.'' # get_file_ext p \<and> (h = [] \<or> last h = sep) \<and> sep \<notin> set b
      \<and> sep \<notin> set (get_file_ext p) \<and> CHR ''.'' \<notin> set (get_file_ext p)
      \<and> (\<exists>c\<in>set b. c \<noteq> CHR ''.'') \<and> fst (os_path_splitext p) = h @ b)"
  using splitext_ext_cases [of p]
proof
  assume "snd (os_path_splitext p) = []"
  then obtain a where "os_path_splitext p = (a, [])" by (cases "os_path_splitext p") auto
  then show ?thesis by (simp add: get_file_ext_def str_strip_def)
next
  assume "\<exists>h b x. p = h @ b @ CHR ''.'' # x \<and> (h = [] \<or> last h = sep) \<and> sep \<notin> set b
      \<and> sep \<notin> set x \<and> CHR ''.'' \<notin> set x \<and> (\<exists>c\<in>set b. c \<noteq> CHR ''.'')
      \<and> os_path_splitext p = (h @ b, CHR ''.'' # x)"
  then obtain h b x where d: "p = h @ b @ CHR ''.'' # x" "h = [] \<or> last h = sep" "sep \<notin> set b"
      "sep \<notin> set x" "CHR ''.'' \<notin> set x" "\<exists>c\<in>set b. c \<noteq> CHR ''.''"
      "os_path_splitext p = (h @ b, CHR ''.'' # x)"
    by blast
  then have "get_file_ext p = x" using strip_dot_ext [OF d(5)] by (simp add: get_file_ext_def)
  with d show ?thesis by auto
qed

lemma sep_not_dot: "sep \<noteq> CHR ''.''"
  by (simp add: sep_def)

lemma get_file_ext_prefix:
  assumes "pre = [] \<or> last pre = sep"
  shows "get_file_ext (pre @ f) = get_file_ext f"
proof (cases "get_file_ext f = []")
  case False
  then obtain h b where d: "f = h @ b @ CHR ''.'' # get_file_ext f" "h = [] \<or> last h = sep"
      "sep \<notin> set b" "sep \<notin> set (get_file_ext f)" "CHR ''.'' \<notin> set (get_file_ext f)"
      "\<exists>c\<in>set b. c \<noteq> CHR ''.''"
    using get_file_ext_cases [of f] by blast
  have "pre @ h = [] \<or> last (pre @ h) = sep" using assms d(2) by (cases "h = []") auto
  from get_file_ext_split [OF this d(3-6)] d(1) show ?thesis by simp
next
  case True
  show ?thesis
  proof (rule ccontr)
    assume "get_file_ext (pre @ f) \<noteq> get_file_ext f"
    with True have ne: "get_file_ext (pre @ f) \<noteq> []" by simp
    let ?x = "get_file_ext (pre @ f)"
    from ne obtain h b where d: "pre @ f = h @ b @ CHR ''.'' # ?x" "h = [] \<or> last h = sep"
        "sep \<notin> set b" "sep \<notin> set ?x" "CHR ''.'' \<notin> set ?x" "\<exists>c\<in>set b. c \<noteq> CHR ''.''"
      using get_file_ext_cases [of "pre @ f"] by blast
    have tail: "sep \<notin> set (b @ CHR ''.'' # ?x)" using d(3,4) sep_not_dot by simp
    from d(1) obtain w where w: "pre = h @ w \<and> w @ f = b @ CHR ''.'' # ?x
        \<or> pre @ w = h \<and> f = w @ b @ CHR ''.'' # ?x"
      unfolding append_eq_append_conv2 by blast
    have "\<exists>h'. f = h' @ b @ CHR ''.'' # ?x \<and> (h' = [] \<or> last h' = sep)"
    proof (cases "w = []")
      case True
      with w show ?thesis by auto
    next
      case False
      from w show ?thesis
      proof
        assume a: "pre = h @ w \<and> w @ f = b @ CHR ''.'' # ?x"
        with False assms have "last w = sep" by auto
        with False have "sep \<in> set w" using last_in_set by metis
        then have "sep \<in> set (w @ f)" by simp
        moreover from a have eq: "w @ f = b @ CHR ''.'' # ?x" by blast
        ultimately have "sep \<in> set (b @ CHR ''.'' # ?x)" by metis
        with tail show ?thesis by blast
      next
        assume a: "pre @ w = h \<and> f = w @ b @ CHR ''.'' # ?x"
        with False d(2) have "last w = sep" by auto
        with a show ?thesis by blast
      qed
    qed
    then obtain h' where h': "f = h' @ b @ CHR ''.'' # ?x" "h' = [] \<or> last h' = sep" by blast
    from get_file_ext_split [OF h'(2) d(3-6)] h'(1) have "get_file_ext f = ?x" by simp
    with True ne show False by simp
  qed
qed

lemma os_path_join_suffix: "\<exists>pre. os_path_join root f = pre @ f \<and> (pre = [] \<or> last pre = sep)"
proof -
  have "os_path_join root f = [] @ f \<or> os_path_join root f = root @ f \<and> (root = [] \<or> last root = sep)
      \<or> os_path_join root f = (root @ [sep]) @ f"
    by (auto simp: os_path_join_def)
  then show ?thesis by (metis last_snoc)
qed

lemma get_file_ext_join: "get_file_ext (os_path_join root f) = get_file_ext f"
  using os_path_join_suffix [of root f] get_file_ext_prefix by metis

lemma get_file_ext_sibling:
  assumes "get_file_ext f \<noteq> []" and "sep \<notin> set e" and "CHR ''.'' \<notin> set e"
  shows "get_file_ext (fst (os_path_splitext f) @ ''.'' @ e) = e"
proof -
  from assms(1) obtain h b where d: "h = [] \<or> last h = sep" "sep \<notin> set b"
      "\<exists>c\<in>set b. c \<noteq> CHR ''.''" "fst (os_path_splitext f) = h @ b"
    using get_file_ext_cases [of f] by blast
  from get_file_ext_split [OF d(1,2) assms(2,3) d(3)] d(4) show ?thesis by simp
qed

lemma get_file_ext_nodot:
  assumes "CHR ''.'' \<notin> set n"
  shows "get_file_ext n = []"
proof (rule ccontr)
  assume "get_file_ext n \<noteq> []"
  then obtain h b where "n = h @ b @ CHR ''.'' # get_file_ext n"
    using get_file_ext_cases [of n] by blast
  moreover have "CHR ''.'' \<in> set (h @ b @ CHR ''.'' # get_file_ext n)" by simp
  ultimately show False using assms by simp
qed

lemma get_file_ext_dotfile:
  assumes "CHR ''.'' \<notin> set r" and "sep \<notin> set r"
  shows "get_file_ext (CHR ''.'' # r) = []"
proof -
  have "str_rfind CHR ''.'' (CHR ''.'' # r) = 0"
    using str_rfind_last [OF assms(1), of "[]"] by simp
  moreover have "str_rfind sep (CHR ''.'' # r) = -1"
    using assms(2) sep_not_dot by (intro str_rfind_notin) auto
  ultimately have "os_path_splitext (CHR ''.'' # r) = (CHR ''.'' # r, [])"
    unfolding os_path_splitext_def Let_def by (simp add: str_slice_def)
  then show ?thesis by (simp add: get_file_ext_def str_strip_def)
qed

lemma length_str_split: "length (str_split c s) = Suc (length (filter (\<lambda>x. x = c) s))"
  by (induction s) (auto split: list.splits)

lemma str_split_notin: "c \<notin> set s \<Longrightarrow> str_split c s = [s]"
  by (induction s) auto

lemma last_str_split_append: "last (str_split c (xs @ c # ys)) = last (str_split c ys)"
proof (induction xs)
  case Nil
  have "str_split c ys \<noteq> []" using length_str_split [of c ys] by auto
  then show ?case by simp
next
  case (Cons x xs)
  have "2 \<le> length (str_split c (xs @ c # ys))" by (simp add: length_str_split)
  then obtain w v vs where "str_split c (xs @ c # ys) = w # v # vs"
    by (auto simp: numeral_2_eq_2 Suc_le_length_iff)
  with Cons show ?case by auto
qed

lemma str_split_last:
  "\<exists>d. p = d @ last (str_split c p) \<and> (d = [] \<or> last d = c) \<and> c \<notin> set (last (str_split c p))"
proof (cases "c \<in> set p")
  case False
  then show ?thesis by (simp add: str_split_notin)
next
  case True
  then obtain xs ys where p: "p = xs @ c # ys" and ys: "c \<notin> set ys"
    using split_list_last by fastforce
  then have "last (str_split c p) = ys" by (simp add: last_str_split_append str_split_notin)
  with p ys show ?thesis by (intro exI [of _ "xs @ [c]"]) simp
qed

lemma get_file_ext_last_segment: "get_file_ext p = get_file_ext (last (str_split sep p))"
  using str_split_last [of p sep] get_file_ext_prefix by metis

section \<open>Year extraction\<close>


lemma match_year_iff:
  "match_year t = Some g \<longleftrightarrow> year_token_at t 0 \<and> g = take 4 (drop 1 t)"
  by (cases t rule: match_year.cases) (auto simp: year_token_at_def)

lemma match_year_None_iff: "match_year t = None \<longleftrightarrow> \<not> year_token_at t 0"
  using match_year_iff [of t] by (cases "match_year t") auto

lemma year_token_at_drop: "year_token_at (drop k s) j \<longleftrightarrow> year_token_at s (k + j)"
  by (auto simp: year_token_at_def add.assoc)

lemma year_token_at_Cons: "year_token_at (c # cs) (Suc j) \<longleftrightarrow> year_token_at cs j"
  by (simp add: year_token_at_def add.commute)

lemma year_tokens_apart:
  assumes "year_token_at s i" and "year_token_at s j" and "i < j"
  shows "i + 6 \<le> j"
proof (rule ccontr)
  assume "\<not> i + 6 \<le> j"
  with assms(3) consider "j = i + 1" | "j = i + 2" | "j = i + 3" | "j = i + 4" | "j = i + 5"
    by arith
  then show False
    using assms(1,2) by cases (auto simp: year_token_at_def is_digit_def)
qed

lemma findall_year_token: "re_findall_year s \<noteq> [] \<Longrightarrow> \<exists>j. year_token_at s j"
proof (induction s rule: re_findall_year.induct)
  case 1
  then show ?case by simp
next
  case (2 c cs)
  show ?case
  proof (cases "match_year (c # cs)")
    case None
    with 2 obtain j where "year_token_at cs j" by auto
    then have "year_token_at (c # cs) (Suc j)" by (simp add: year_token_at_Cons)
    then show ?thesis by blast
  next
    case (Some g)
    then show ?thesis using match_year_iff by blast
  qed
qed

lemma findall_year_last:
  "year_token_at s i \<Longrightarrow> (\<forall>j. year_token_at s j \<longrightarrow> j \<le> i)
    \<Longrightarrow> re_findall_year s \<noteq> [] \<and> last (re_findall_year s) = take 4 (drop (Suc i) s)"
proof (induction "length s" arbitrary: s i rule: less_induct)
  case less
  from less.prems(1) obtain c cs where s: "s = c # cs"
    by (cases s) (auto simp: year_token_at_def)
  show ?case
  proof (cases "match_year s")
    case None
    then have "\<not> year_token_at s 0" by (simp add: match_year_None_iff)
    with less.prems(1) obtain i' where i: "i = Suc i'" by (cases i) auto
    have t: "year_token_at cs i'" using less.prems(1) s i by (simp add: year_token_at_Cons)
    have m: "\<forall>j. year_token_at cs j \<longrightarrow> j \<le> i'"
      using less.prems(2) s i year_token_at_Cons by (metis Suc_le_mono)
    have "length cs < length s" using s by simp
    from less.hyps [OF this t m] show ?thesis using None s i by simp
  next
    case (Some g)
    then have t0: "year_token_at s 0" and g: "g = take 4 (drop 1 s)"
      by (simp_all add: match_year_iff)
    have fa: "re_findall_year s = g # re_findall_year (drop 6 s)"
      using Some s by simp
    show ?thesis
    proof (cases "i = 0")
      case True
      have "re_findall_year (drop 6 s) = []"
      proof (rule ccontr)
        assume "re_findall_year (drop 6 s) \<noteq> []"
        then obtain j where "year_token_at (drop 6 s) j" using findall_year_token by blast
        then have "year_token_at s (6 + j)" by (simp add: year_token_at_drop)
        with less.prems(2) True show False by auto
      qed
      with fa g True show ?thesis by simp
    next
      case False
      then have "6 \<le> i" using year_tokens_apart [OF t0 less.prems(1)] by simp
      then obtain i' where i: "i = 6 + i'" using le_Suc_ex by blast
      have t: "year_token_at (drop 6 s) i'" using less.prems(1) i by (simp add: year_token_at_drop)
      have m: "\<forall>j. year_token_at (drop 6 s) j \<longrightarrow> j \<le> i'"
        using less.prems(2) i by (auto simp: year_token_at_drop)
      have "length (drop 6 s) < length s" using s by simp
      from less.hyps [OF this t m] fa i show ?thesis by (simp add: add.commute)
    qed
  qed
qed

lemma is_digit_not_space: "is_digit c \<Longrightarrow> \<not> is_space c"
  by (auto simp: is_digit_def is_space_def)

lemma is_digit_not_sign: "is_digit c \<Longrightarrow> c \<noteq> CHR ''-'' \<and> c \<noteq> CHR ''+''"
  by (auto simp: is_digit_def)

lemma py_int_four_digits:
  assumes "is_digit a" and "is_digit b" and "is_digit c" and "is_digit d"
  shows "py_int [a, b, c, d] = Some (decimal_value [a, b, c, d])"
  using assms is_digit_not_space [OF assms(1)] is_digit_not_space [OF assms(4)]
    is_digit_not_sign [OF assms(1)]
  by (simp add: py_int_def py_unsigned_def decimal_value_def)

lemma year_token_group:
  assumes "year_token_at s i"
  shows "take 4 (drop (Suc i) s) = [s ! (i + 1), s ! (i + 2), s ! (i + 3), s ! (i + 4)]"
proof -
  have l: "i + 6 \<le> length s" using assms by (simp add: year_token_at_def)
  have "drop (i + 1) s = s ! (i + 1) # drop (i + 2) s"
    using Cons_nth_drop_Suc [of "i + 1" s] l by simp
  moreover have "drop (i + 2) s = s ! (i + 2) # drop (i + 3) s"
    using Cons_nth_drop_Suc [of "i + 2" s] l by (simp add: numeral_3_eq_3)
  moreover have "drop (i + 3) s = s ! (i + 3) # drop (i + 4) s"
    using Cons_nth_drop_Suc [of "i + 3" s] l by (simp add: eval_nat_numeral)
  moreover have "drop (i + 4) s = s ! (i + 4) # drop (i + 5) s"
    using Cons_nth_drop_Suc [of "i + 4" s] l by (simp add: eval_nat_numeral)
  ultimately show ?thesis by simp
qed

lemma py_int_year_token:
  assumes "year_token_at s i"
  shows "py_int (take 4 (drop (Suc i) s)) = Some (decimal_value (take 4 (drop (Suc i) s)))"
  unfolding year_token_group [OF assms]
  using assms by (intro py_int_four_digits) (simp_all add: year_token_at_def)

lemma has_year_token_iff: "has_year_token s \<longleftrightarrow> (\<exists>j. year_token_at s j)"
  by (auto simp: has_year_token_def list_ex_iff year_token_at_def)

lemma last_year_token_iff:
  "last_year_token s i \<longleftrightarrow> year_token_at s i \<and> (\<forall>j. year_token_at s j \<longrightarrow> j \<le> i)"
proof -
  have "(\<forall>j\<in>{Suc i..<length s}. \<not> year_token_at s j) \<longleftrightarrow> (\<forall>j. year_token_at s j \<longrightarrow> j \<le> i)"
  proof
    assume a: "\<forall>j\<in>{Suc i..<length s}. \<not> year_token_at s j"
    show "\<forall>j. year_token_at s j \<longrightarrow> j \<le> i"
    proof (intro allI impI)
      fix j assume t: "year_token_at s j"
      then have "j < length s" by (simp add: year_token_at_def)
      with a t show "j \<le> i" by (cases "j \<le> i") auto
    qed
  next
    assume "\<forall>j. year_token_at s j \<longrightarrow> j \<le> i"
    then show "\<forall>j\<in>{Suc i..<length s}. \<not> year_token_at s j" by fastforce
  qed
  then show ?thesis by (simp add: last_year_token_def list_all_iff)
qed

lemma has_last_year_token: "has_year_token s \<Longrightarrow> \<exists>i. last_year_token s i"
proof -
  assume "has_year_token s"
  then obtain j where j: "year_token_at s j" using has_year_token_iff by blast
  have "\<forall>k. year_token_at s k \<longrightarrow> k \<le> length s" by (simp add: year_token_at_def)
  with j obtain i where "year_token_at s i" "\<forall>k. year_token_at s k \<longrightarrow> k \<le> i"
    using Nat.ex_has_greatest_nat [of "year_token_at s" j "length s"] by blast
  then show ?thesis using last_year_token_iff by blast
qed

lemma parse_album_year_last_token:
  assumes "last_year_token s i"
  shows "parse_album_year s = Inr (decimal_value (take 4 (drop (Suc i) s)))"
proof -
  from assms have t: "year_token_at s i" and m: "\<forall>j. year_token_at s j \<longrightarrow> j \<le> i"
    by (simp_all add: last_year_token_iff)
  from findall_year_last [OF t m] obtain g gs where
    fa: "re_findall_year s = g # gs" and l: "last (g # gs) = take 4 (drop (Suc i) s)"
    by (cases "re_findall_year s") auto
  show ?thesis
    unfolding parse_album_year_def Let_def fa list.case l py_int_year_token [OF t] by simp
qed

lemma parse_album_year_no_token:
  assumes "\<not> has_year_token s"
  shows "parse_album_year s
    = Inl (SystemExit 1 [''Exception processing album: '' @ s, ''list index out of range''])"
proof -
  have "re_findall_year s = []" using assms findall_year_token has_year_token_iff by blast
  then show ?thesis by (simp add: parse_album_year_def)
qed

lemma parse_album_year_has_token: "has_year_token s \<Longrightarrow> \<exists>y. parse_album_year s = Inr y"
  using has_last_year_token parse_album_year_last_token by blast

section \<open>Selection and the library walk\<close>


lemma select_media_eq:
  "select_media fs root basename exts ret
     = ret @ filter (os_path_exists fs) (map (\<lambda>e. os_path_join root (basename @ ''.'' @ e)) exts)"
  by (induction exts arbitrary: ret) (simp_all add: Let_def)

lemma select_files_eq:
  "select_files fs root files ret = ret @ concat (map (selected_for fs root) files)"
proof (induction files arbitrary: ret)
  case Nil
  then show ?case by simp
next
  case (Cons f files)
  show ?case
    by (simp add: Cons.IH Let_def select_media_eq selected_for_def media_sibling_def [abs_def])
qed

lemma select_walk_eq:
  "select_walk fs w ret
     = ret @ concat (map (\<lambda>(root, dirs, files). concat (map (selected_for fs root) files)) w)"
  by (induction w arbitrary: ret) (auto simp: select_files_eq)

lemma in_select_walk_iff:
  "p \<in> set (select_walk fs w []) \<longleftrightarrow>
     (\<exists>root dirs files f. (root, dirs, files) \<in> set w \<and> f \<in> set files
        \<and> p \<in> set (selected_for fs root f))"
  by (fastforce simp: select_walk_eq)

lemma media_ext_plain: "e \<in> set EXTS_MEDIA \<Longrightarrow> sep \<notin> set e \<and> CHR ''.'' \<notin> set e"
  by (auto simp: EXTS_MEDIA_def sep_def)

lemma lyrics_ext_nonempty: "get_file_ext f \<in> set EXTS_LYRICS \<Longrightarrow> get_file_ext f \<noteq> []"
  by (auto simp: EXTS_LYRICS_def)

lemma get_file_ext_media_sibling:
  assumes "get_file_ext f \<noteq> []" and "e \<in> set EXTS_MEDIA"
  shows "get_file_ext (media_sibling root f e) = e"
  using get_file_ext_sibling [OF assms(1)] media_ext_plain [OF assms(2)]
  by (simp add: media_sibling_def get_file_ext_join)

lemma selected_for_ext:
  assumes "p \<in> set (selected_for fs root f)"
  shows "get_file_ext p \<in> set ALLOWED_EXTS"
proof (cases "get_file_ext f \<in> set EXTS_LYRICS")
  case True
  with assms consider "p = os_path_join root f"
    | e where "e \<in> set EXTS_MEDIA" "p = media_sibling root f e"
    by (auto simp: selected_for_def)
  then show ?thesis
  proof cases
    case 1
    with True show ?thesis by (simp add: get_file_ext_join ALLOWED_EXTS_def)
  next
    case 2
    with True show ?thesis
      using get_file_ext_media_sibling [OF lyrics_ext_nonempty] by (simp add: ALLOWED_EXTS_def)
  qed
next
  case False
  with assms show ?thesis
    by (auto simp: selected_for_def get_file_ext_join ALLOWED_EXTS_def split: if_splits)
qed

lemma year_in_range_bounds:
  assumes "min_year = ''any'' \<or> py_int min_year = Some lo"
    and "max_year = ''any'' \<or> py_int max_year = Some hi"
  shows "year_in_range y min_year max_year
     = Inr ((min_year = ''any'' \<or> lo \<le> y) \<and> (max_year = ''any'' \<or> y \<le> hi))"
  using assms by (auto simp: year_in_range_def)

lemma py_int_any: "py_int ''any'' = None"
  by (simp add: py_int_def py_unsigned_def is_space_def is_digit_def)

lemma process_album_dir_parsed:
  assumes "2 \<le> length (str_split sep album_path)"
    and "parse_album_year (album_name_of album_path) = Inr y"
    and "year_in_range y min_year max_year = Inr b"
  shows "process_album_dir fs album_path min_year max_year
     = Inr (if b then select_walk fs (os_walk fs True album_path) [] else [])"
  using assms by (simp add: process_album_dir_def album_name_of_def Let_def)

lemma process_album_dir_unparsed:
  assumes "2 \<le> length (str_split sep album_path)"
    and "parse_album_year (album_name_of album_path) = Inl e"
  shows "process_album_dir fs album_path min_year max_year = Inl e"
  using assms by (simp add: process_album_dir_def album_name_of_def Let_def)

lemma process_album_dir_result:
  assumes "process_album_dir fs album_path min_year max_year = Inr ret"
  shows "ret = (if passes_year_filter album_path min_year max_year
                then select_walk fs (os_walk fs True album_path) [] else [])"
  using assms
  by (auto simp: process_album_dir_def passes_year_filter_def album_name_of_def Let_def
      split: if_splits sum.splits)

lemma process_albums_append:
  "process_albums fs min_year max_year (xs @ ys) files =
     (case process_albums fs min_year max_year xs files of
        Inl e \<Rightarrow> Inl e
      | Inr files' \<Rightarrow> process_albums fs min_year max_year ys files')"
  by (induction xs arbitrary: files) (auto split: sum.splits)

lemma walk_dirs_eq:
  "walk_dirs fs base_depth min_year max_year root dirs files =
     process_albums fs min_year max_year
       (filter (\<lambda>p. get_path_depth p - base_depth = 2) (map (os_path_join root) dirs)) files"
  by (induction dirs arbitrary: files) (auto simp: Let_def split: sum.splits)

lemma walk_roots_eq:
  "walk_roots fs base_depth min_year max_year w files =
     process_albums fs min_year max_year
       (filter (\<lambda>p. get_path_depth p - base_depth = 2)
          (concat (map (\<lambda>(root, dirs, _). map (os_path_join root) dirs) w))) files"
  by (induction w arbitrary: files)
    (auto simp: walk_dirs_eq process_albums_append split: sum.splits)

lemma walk_media_dir_eq:
  "walk_media_dir fs media_path min_year max_year
     = process_albums fs min_year max_year (album_dirs fs media_path) []"
  by (simp add: walk_media_dir_def walk_roots_eq album_dirs_def candidate_dirs_def)

lemma get_path_depth_pos: "1 \<le> get_path_depth p"
  by (simp add: get_path_depth_def length_str_split)

lemma length_filter_dropWhile: "length (filter Q (dropWhile P xs)) \<le> length (filter Q xs)"
proof -
  have "length (filter Q xs) = length (filter Q (takeWhile P xs @ dropWhile P xs))" by simp
  also have "\<dots> = length (filter Q (takeWhile P xs)) + length (filter Q (dropWhile P xs))"
    by (simp only: filter_append length_append)
  finally show ?thesis by simp
qed

lemma length_filter_str_strip: "length (filter Q (str_strip chars s)) \<le> length (filter Q s)"
proof -
  let ?P = "\<lambda>c. c \<in> set chars"
  have "length (filter Q (str_strip chars s)) = length (filter Q (dropWhile ?P (rev (dropWhile ?P s))))"
    unfolding str_strip_def by (simp only: rev_filter [symmetric] length_rev)
  also have "\<dots> \<le> length (filter Q (rev (dropWhile ?P s)))" by (rule length_filter_dropWhile)
  also have "\<dots> = length (filter Q (dropWhile ?P s))" by (simp only: rev_filter [symmetric] length_rev)
  also have "\<dots> \<le> length (filter Q s)" by (rule length_filter_dropWhile)
  finally show ?thesis .
qed

lemma get_path_depth_le: "get_path_depth p \<le> int (length (str_split sep p))"
  by (simp add: get_path_depth_def length_str_split length_filter_str_strip)

lemma album_dirs_tokens:
  assumes "d \<in> set (album_dirs fs media_path)"
  shows "2 \<le> length (str_split sep d)"
proof -
  from assms have "get_path_depth d - get_path_depth media_path = 2"
    by (simp add: album_dirs_def)
  then have "3 \<le> get_path_depth d" using get_path_depth_pos [of media_path] by simp
  then show ?thesis using get_path_depth_le [of d] by simp
qed

lemma process_albums_first_error:
  assumes "\<forall>d\<in>set pre. \<exists>sel. process_album_dir fs d min_year max_year = Inr sel"
    and "process_album_dir fs d min_year max_year = Inl e"
  shows "process_albums fs min_year max_year (pre @ d # post) files = Inl e"
  using assms by (induction pre arbitrary: files) auto

lemma process_albums_invariant:
  assumes "process_albums fs min_year max_year ds files = Inr out"
    and "\<forall>p\<in>set files. Q p"
    and "\<forall>d sel. d \<in> set ds \<longrightarrow> process_album_dir fs d min_year max_year = Inr sel
          \<longrightarrow> (\<forall>p\<in>set sel. Q p)"
  shows "\<forall>p\<in>set out. Q p"
  using assms
proof (induction ds arbitrary: files)
  case Nil
  then show ?case by simp
next
  case (Cons d ds)
  from Cons.prems(1) obtain sel where sel: "process_album_dir fs d min_year max_year = Inr sel"
    and rest: "process_albums fs min_year max_year ds (files @ sel) = Inr out"
    by (auto split: sum.splits)
  have "\<forall>p\<in>set (files @ sel). Q p" using Cons.prems(2,3) sel by auto
  from Cons.IH [OF rest this] Cons.prems(3) show ?case by auto
qed

lemma process_album_dir_token_ok:
  assumes "2 \<le> length (str_split sep d)" and "has_year_token (album_name_of d)"
    and "min_year = ''any'' \<or> py_int min_year \<noteq> None"
    and "max_year = ''any'' \<or> py_int max_year \<noteq> None"
  shows "\<exists>sel. process_album_dir fs d min_year max_year = Inr sel"
proof -
  from assms(2) obtain y where y: "parse_album_year (album_name_of d) = Inr y"
    using parse_album_year_has_token by blast
  from assms(3,4) obtain lo hi where "min_year = ''any'' \<or> py_int min_year = Some lo"
    "max_year = ''any'' \<or> py_int max_year = Some hi" by auto
  from year_in_range_bounds [OF this] process_album_dir_parsed [OF assms(1) y]
  show ?thesis by blast
qed

lemma process_album_dir_no_token:
  assumes "2 \<le> length (str_split sep d)" and "\<not> has_year_token (album_name_of d)"
  shows "process_album_dir fs d min_year max_year
    = Inl (SystemExit 1 [''Exception processing album: '' @ album_name_of d,
                         ''list index out of range''])"
  using process_album_dir_unparsed [OF assms(1) parse_album_year_no_token [OF assms(2)]] .

section \<open>Destination mapping: results\<close>

text \<open>
  C8. For \<open>sourceRoot = /music\<close>, \<open>destRoot = /out\<close> and the source path
  \<open>/music/ArtistX/Album [1985]/01.mp3\<close>, the destination mapping of \<^verbatim>\<open>copy_file\<close>
  computes \<open>/out/ArtistX/Album [1985]/01.mp3\<close>.
\<close>

theorem copy_file_dest_example:
  "copy_file_dest ''/music'' ''/out'' ''/music/ArtistX/Album [1985]/01.mp3''
     = Inr ''/out/ArtistX/Album [1985]/01.mp3''"
  by (simp add: copy_file_dest_def str_strip_def os_path_join_def sep_def)

text \<open>
  C1. The destination is meant to be the destination root joined with exactly the
  remainder of the source path after the source root and a leading separator. The code
  strips with \<^verbatim>\<open>str.strip(source_dir)\<close>, which removes from both ends every character
  that occurs in the source root: for the source root \<open>/music\<close> the lyrics file
  \<open>/music/ArtistX/Album [1985]/01.lrc\<close> loses its final \<open>c\<close>, and the media file
  \<open>/music/summer/Album [1985]/tune.mp3\<close> loses the first four letters of its artist
  folder.
\<close>

theorem copy_file_dest_strips_too_much:
  "copy_file_dest ''/music'' ''/out'' ''/music/ArtistX/Album [1985]/01.lrc''
     = Inr ''/out/ArtistX/Album [1985]/01.lr''
   \<and> copy_file_dest ''/music'' ''/out'' ''/music/summer/Album [1985]/tune.mp3''
     = Inr ''/out/er/Album [1985]/tune.mp3''"
  by (simp add: copy_file_dest_def str_strip_def os_path_join_def sep_def)

section \<open>The walk reaches every directory of the subtree\<close>

lemma os_walk_node_top:
  "(top_dir, map fst (filter (\<lambda>e. is_dir (snd e)) es), map fst (filter (\<lambda>e. \<not> is_dir (snd e)) es))
     \<in> set (os_walk_node topdown top_dir (Dir es))"
  by (simp add: Let_def)

lemma os_walk_node_below:
  assumes "(c, Dir es') \<in> set es"
    and "t \<in> set (os_walk_node topdown (os_path_join top_dir c) (Dir es'))"
  shows "t \<in> set (os_walk_node topdown top_dir (Dir es))"
proof -
  let ?F = "\<lambda>e. os_walk_node topdown (os_path_join top_dir (fst e)) (snd e)"
  have "(c, Dir es') \<in> set (filter (\<lambda>e. is_dir (snd e)) es)" using assms(1) by simp
  moreover have "t \<in> set (?F (c, Dir es'))" using assms(2) by (simp only: fst_conv snd_conv)
  ultimately have "t \<in> set (concat (map ?F (filter (\<lambda>e. is_dir (snd e)) es)))"
    unfolding set_concat set_map by blast
  then show ?thesis
    unfolding os_walk_node.simps(2) [of topdown top_dir es] Let_def
    by (cases topdown) (auto simp del: os_walk_node.simps)
qed

lemma os_walk_node_covers:
  "descend (Dir es) names = Some (Dir es') \<Longrightarrow>
     (foldl os_path_join top_dir names,
      map fst (filter (\<lambda>e. is_dir (snd e)) es'), map fst (filter (\<lambda>e. \<not> is_dir (snd e)) es'))
     \<in> set (os_walk_node topdown top_dir (Dir es))"
proof (induction names arbitrary: es top_dir)
  case Nil
  then show ?case using os_walk_node_top by simp
next
  case (Cons c cs)
  from Cons.prems obtain n where n: "map_of es c = Some n" "descend n cs = Some (Dir es')"
    by (auto split: option.splits)
  then obtain es1 where es1: "n = Dir es1" by (cases n; cases cs) auto
  from n(1) es1 have "(c, Dir es1) \<in> set es" by (simp add: map_of_SomeD)
  moreover from Cons.IH [of es1 "os_path_join top_dir c"] n(2) es1
  have "(foldl os_path_join (os_path_join top_dir c) cs,
      map fst (filter (\<lambda>e. is_dir (snd e)) es'), map fst (filter (\<lambda>e. \<not> is_dir (snd e)) es'))
     \<in> set (os_walk_node topdown (os_path_join top_dir c) (Dir es1))" by simp
  ultimately show ?case using os_walk_node_below by simp
qed

section \<open>Lyrics and media\<close>


lemma lyrics_not_media: "e \<in> set EXTS_MEDIA \<Longrightarrow> e \<notin> set EXTS_LYRICS \<and> e \<notin> set EXTS_ART"
  by (auto simp: EXTS_MEDIA_def EXTS_LYRICS_def EXTS_ART_def)

lemma selected_for_media:
  assumes "p \<in> set (selected_for fs root f)" and "get_file_ext p \<in> set EXTS_MEDIA"
  shows "get_file_ext f \<in> set EXTS_LYRICS \<and> (\<exists>e\<in>set EXTS_MEDIA. p = media_sibling root f e)
    \<and> os_path_exists fs p"
proof (cases "get_file_ext f \<in> set EXTS_LYRICS")
  case True
  with assms(1) consider "p = os_path_join root f"
    | e where "e \<in> set EXTS_MEDIA" "p = media_sibling root f e" "os_path_exists fs p"
    by (auto simp: selected_for_def)
  then show ?thesis
  proof cases
    case 1
    then have "get_file_ext p = get_file_ext f" by (simp add: get_file_ext_join)
    with True assms(2) lyrics_not_media show ?thesis by metis
  next
    case 2
    with True show ?thesis by blast
  qed
next
  case False
  with assms(1) have "get_file_ext f \<in> set EXTS_ART" "p = os_path_join root f"
    by (auto simp: selected_for_def split: if_splits)
  then have "get_file_ext p \<in> set EXTS_ART" by (simp add: get_file_ext_join)
  with assms(2) lyrics_not_media show ?thesis by metis
qed

lemma process_album_dir_ext:
  assumes "process_album_dir fs album_path min_year max_year = Inr ret" and "p \<in> set ret"
  shows "get_file_ext p \<in> set ALLOWED_EXTS"
proof -
  from process_album_dir_result [OF assms(1)] assms(2)
  have "p \<in> set (select_walk fs (os_walk fs True album_path) [])"
    by (auto split: if_splits)
  then show ?thesis using in_select_walk_iff selected_for_ext by blast
qed

lemma walk_media_dir_ext:
  assumes "walk_media_dir fs media_path min_year max_year = Inr files" and "p \<in> set files"
  shows "get_file_ext p \<in> set ALLOWED_EXTS"
proof -
  have "\<forall>p\<in>set files. get_file_ext p \<in> set ALLOWED_EXTS"
    using assms(1) unfolding walk_media_dir_eq
    by (rule process_albums_invariant) (auto dest: process_album_dir_ext)
  with assms(2) show ?thesis by blast
qed

lemma os_path_join_prefix:
  assumes "x \<noteq> []"
  shows "\<exists>pre. (pre = [] \<or> last pre = sep) \<and> (\<forall>y. os_path_join root (x @ y) = pre @ x @ y)"
proof -
  have hd: "hd (x @ y) = hd x" for y using assms by simp
  consider "hd x = sep" | "hd x \<noteq> sep" "root = [] \<or> last root = sep"
    | "hd x \<noteq> sep" "\<not> (root = [] \<or> last root = sep)" by blast
  then show ?thesis
  proof cases
    case 1
    then have "\<forall>y. os_path_join root (x @ y) = [] @ x @ y"
      using assms hd by (simp add: os_path_join_def)
    then show ?thesis by blast
  next
    case 2
    then have "\<forall>y. os_path_join root (x @ y) = root @ x @ y"
      using assms hd by (simp add: os_path_join_def)
    with 2(2) show ?thesis by blast
  next
    case 3
    then have "\<forall>y. os_path_join root (x @ y) = (root @ [sep]) @ x @ y"
      using assms hd by (simp add: os_path_join_def)
    moreover have "last (root @ [sep]) = sep" by simp
    ultimately show ?thesis by blast
  qed
qed

lemma media_sibling_stem:
  assumes "get_file_ext f = ''lrc''" and "e \<in> set EXTS_MEDIA"
  shows "fst (os_path_splitext (media_sibling root f e)) @ ''.lrc'' = os_path_join root f"
proof -
  from assms(1) obtain h b where d: "f = h @ b @ CHR ''.'' # ''lrc''" "h = [] \<or> last h = sep"
      "sep \<notin> set b" "\<exists>c\<in>set b. c \<noteq> CHR ''.''" "fst (os_path_splitext f) = h @ b"
    using get_file_ext_cases [of f] by auto
  from d(4) have ne: "h @ b \<noteq> []" by auto
  from os_path_join_prefix [OF ne, of root] obtain pre where
    pre: "pre = [] \<or> last pre = sep" "\<And>y. os_path_join root ((h @ b) @ y) = pre @ (h @ b) @ y"
    by blast
  have e: "sep \<notin> set e" "CHR ''.'' \<notin> set e" using media_ext_plain [OF assms(2)] by simp_all
  have ph: "pre @ h = [] \<or> last (pre @ h) = sep" using pre(1) d(2) by (cases "h = []") auto
  have "media_sibling root f e = (pre @ h) @ b @ CHR ''.'' # e"
    using pre(2) [of "CHR ''.'' # e"] d(5) by (simp add: media_sibling_def)
  then have "fst (os_path_splitext (media_sibling root f e)) = pre @ h @ b"
    using splitext_split [OF ph d(3) e d(4)] by simp
  moreover have "os_path_join root f = pre @ h @ b @ ''.lrc''"
    using pre(2) [of "''.lrc''"] d(1) by simp
  ultimately show ?thesis by simp
qed

text \<open>
  C2. In an album folder that passes the year filter, every file of the walk whose
  extension is \<open>lrc\<close> is selected, and for each media extension its same-directory
  same-stem sibling is selected exactly when that path exists. Whatever the folder and
  the year range, a selected path with a media extension is always such a sibling of a
  lyrics file of the walk, and the path of that lyrics file, which is the media path
  with the extension replaced by \<open>lrc\<close>, is selected too; so a media file without a
  lyrics file of the same stem beside it is never selected, and a folder whose walk
  has no lyrics file at all contributes no media file.
\<close>

theorem lyrics_and_media_selection:
  assumes "process_album_dir fs album_path min_year max_year = Inr ret"
  shows "(passes_year_filter album_path min_year max_year
          \<and> (root, dirs, files) \<in> set (os_walk fs True album_path)
          \<and> f \<in> set files \<and> get_file_ext f = ''lrc'' \<longrightarrow>
            os_path_join root f \<in> set ret
            \<and> (\<forall>e\<in>set EXTS_MEDIA.
                  media_sibling root f e \<in> set ret
                    \<longleftrightarrow> os_path_exists fs (media_sibling root f e)))
    \<and> (\<forall>p\<in>set ret. get_file_ext p \<in> set EXTS_MEDIA \<longrightarrow>
          (\<exists>(root', dirs', files')\<in>set (os_walk fs True album_path). \<exists>f'\<in>set files'.
             get_file_ext f' = ''lrc'' \<and> (\<exists>e\<in>set EXTS_MEDIA. p = media_sibling root' f' e)
             \<and> os_path_join root' f' = fst (os_path_splitext p) @ ''.lrc''
             \<and> os_path_join root' f' \<in> set ret))
    \<and> (\<forall>p\<in>set ret. get_file_ext p \<in> set EXTS_MEDIA \<longrightarrow>
          fst (os_path_splitext p) @ ''.lrc'' \<in> set ret)
    \<and> ((\<forall>(root', dirs', files')\<in>set (os_walk fs True album_path). \<forall>f'\<in>set files'.
           get_file_ext f' \<noteq> ''lrc'') \<longrightarrow>
        (\<forall>p\<in>set ret. get_file_ext p \<notin> set EXTS_MEDIA))"
proof -
  let ?w = "os_walk fs True album_path"
  note res = process_album_dir_result [OF assms]
  have sel: "ret = select_walk fs ?w []" if "q \<in> set ret" for q
    using res that by (auto split: if_splits)
  have a: "os_path_join root f \<in> set ret
      \<and> (\<forall>e\<in>set EXTS_MEDIA.
            media_sibling root f e \<in> set ret \<longleftrightarrow> os_path_exists fs (media_sibling root f e))"
    if pass: "passes_year_filter album_path min_year max_year"
      and w: "(root, dirs, files) \<in> set ?w" and f: "f \<in> set files"
      and l: "get_file_ext f = ''lrc''"
  proof -
    have ret: "ret = select_walk fs ?w []" using res pass by simp
    have lyr: "get_file_ext f \<in> set EXTS_LYRICS" using l by (simp add: EXTS_LYRICS_def)
    have mem: "\<And>q. q \<in> set (selected_for fs root f) \<Longrightarrow> q \<in> set ret"
      unfolding ret in_select_walk_iff using w f by blast
    have a1: "os_path_join root f \<in> set ret"
      using lyr by (intro mem) (simp add: selected_for_def)
    have a2: "media_sibling root f e \<in> set ret \<longleftrightarrow> os_path_exists fs (media_sibling root f e)"
      if e: "e \<in> set EXTS_MEDIA" for e
    proof
      assume "media_sibling root f e \<in> set ret"
      then obtain root' f' where "media_sibling root f e \<in> set (selected_for fs root' f')"
        unfolding ret in_select_walk_iff by blast
      moreover have "get_file_ext (media_sibling root f e) \<in> set EXTS_MEDIA"
        using get_file_ext_media_sibling [OF lyrics_ext_nonempty [OF lyr] e] e by simp
      ultimately show "os_path_exists fs (media_sibling root f e)"
        using selected_for_media by blast
    next
      assume "os_path_exists fs (media_sibling root f e)"
      then show "media_sibling root f e \<in> set ret"
        using lyr e by (intro mem) (simp add: selected_for_def)
    qed
    from a1 a2 show ?thesis by blast
  qed
  have b: "\<exists>(root', dirs', files')\<in>set ?w. \<exists>f'\<in>set files'.
             get_file_ext f' = ''lrc'' \<and> (\<exists>e\<in>set EXTS_MEDIA. p = media_sibling root' f' e)
             \<and> os_path_join root' f' = fst (os_path_splitext p) @ ''.lrc''
             \<and> os_path_join root' f' \<in> set ret"
    if p: "p \<in> set ret" "get_file_ext p \<in> set EXTS_MEDIA" for p
  proof -
    note ret = sel [OF p(1)]
    from p(1) obtain root' dirs' files' f' where w: "(root', dirs', files') \<in> set ?w"
      "f' \<in> set files'" "p \<in> set (selected_for fs root' f')"
      unfolding ret in_select_walk_iff by blast
    from selected_for_media [OF w(3) p(2)]
    have l: "get_file_ext f' = ''lrc''" and "\<exists>e\<in>set EXTS_MEDIA. p = media_sibling root' f' e"
      by (simp_all add: EXTS_LYRICS_def)
    then obtain e where e: "e \<in> set EXTS_MEDIA" "p = media_sibling root' f' e" by blast
    have j: "os_path_join root' f' = fst (os_path_splitext p) @ ''.lrc''"
      using media_sibling_stem [OF l e(1), of root'] e(2) by simp
    have "os_path_join root' f' \<in> set (selected_for fs root' f')"
      using l by (simp add: selected_for_def EXTS_LYRICS_def)
    then have "os_path_join root' f' \<in> set (select_walk fs ?w [])"
      unfolding in_select_walk_iff using w(1,2) by blast
    then have "os_path_join root' f' \<in> set ret" using ret by simp
    with w(1,2) l e j show ?thesis by blast
  qed
  have c: "fst (os_path_splitext p) @ ''.lrc'' \<in> set ret"
    if p: "p \<in> set ret" "get_file_ext p \<in> set EXTS_MEDIA" for p
    using b [OF p] by auto
  have d: "\<forall>p\<in>set ret. get_file_ext p \<notin> set EXTS_MEDIA"
    if "\<forall>(root', dirs', files')\<in>set ?w. \<forall>f'\<in>set files'. get_file_ext f' \<noteq> ''lrc''"
  proof (intro ballI notI)
    fix p assume "p \<in> set ret" "get_file_ext p \<in> set EXTS_MEDIA"
    from b [OF this] that show False by fastforce
  qed
  from a b c d show ?thesis by blast
qed

theorem lyrics_and_media_selection_witness:
  "process_album_dir example_library ''/music/ArtistX/Album [1985]'' ''1980'' ''1989''
     = Inr example_selection
   \<and> passes_year_filter ''/music/ArtistX/Album [1985]'' ''1980'' ''1989''
   \<and> (''/music/ArtistX/Album [1985]'', [''CD2''],
        [''01.lrc'', ''01.mp3'', ''02.mp3'', ''cover.jpg'', ''notes'', ''.lrc''])
       \<in> set (os_walk example_library True ''/music/ArtistX/Album [1985]'')
   \<and> ''01.lrc'' \<in> set [''01.lrc'', ''01.mp3'', ''02.mp3'', ''cover.jpg'', ''notes'', ''.lrc'']
   \<and> get_file_ext ''01.lrc'' = ''lrc''
   \<and> ''/music/ArtistX/Album [1985]/01.lrc'' \<in> set example_selection
   \<and> ''/music/ArtistX/Album [1985]/01.mp3'' \<in> set example_selection
   \<and> ''/music/ArtistX/Album [1985]/01.m4a'' \<notin> set example_selection
   \<and> get_file_ext ''/music/ArtistX/Album [1985]/02.mp3'' \<in> set EXTS_MEDIA
   \<and> ''/music/ArtistX/Album [1985]/02.lrc'' \<notin> set example_selection
   \<and> ''/music/ArtistX/Album [1985]/02.mp3'' \<notin> set example_selection
   \<and> process_album_dir example_library ''/music/ArtistX/Instrumental [1987]'' ''1980'' ''1989''
       = Inr [''/music/ArtistX/Instrumental [1987]/cover.jpg'']
   \<and> passes_year_filter ''/music/ArtistX/Instrumental [1987]'' ''1980'' ''1989''
   \<and> os_walk example_library True ''/music/ArtistX/Instrumental [1987]''
       = [(''/music/ArtistX/Instrumental [1987]'', [], [''cover.jpg'', ''track.mp3''])]
   \<and> get_file_ext ''/music/ArtistX/Instrumental [1987]/track.mp3'' \<in> set EXTS_MEDIA
   \<and> ''/music/ArtistX/Instrumental [1987]/track.mp3''
       \<notin> set [''/music/ArtistX/Instrumental [1987]/cover.jpg'']"
proof -
  let ?a = "''/music/ArtistX/Album [1985]''"
  let ?files = "[''01.lrc'', ''01.mp3'', ''02.mp3'', ''cover.jpg'', ''notes'', ''.lrc'']"
  let ?i = "''/music/ArtistX/Instrumental [1987]''"
  have h1: "process_album_dir example_library ?a ''1980'' ''1989'' = Inr example_selection"
    by code_simp
  have h2: "passes_year_filter ?a ''1980'' ''1989''"
    by code_simp
  have h3: "(?a, [''CD2''], ?files) \<in> set (os_walk example_library True ?a)"
    by code_simp
  have h4: "''01.lrc'' \<in> set ?files"
    by simp
  have h5: "get_file_ext ''01.lrc'' = ''lrc''"
    by code_simp
  note t = lyrics_and_media_selection [OF h1, of ?a "[''CD2'']" ?files "''01.lrc''"]
  have h: "passes_year_filter ?a ''1980'' ''1989''
      \<and> (?a, [''CD2''], ?files) \<in> set (os_walk example_library True ?a)
      \<and> ''01.lrc'' \<in> set ?files \<and> get_file_ext ''01.lrc'' = ''lrc''"
    by (intro conjI h2 h3 h4 h5)
  note t1 = t [THEN conjunct1, rule_format, OF h]
  have j: "os_path_join ?a ''01.lrc'' = ''/music/ArtistX/Album [1985]/01.lrc''"
    by code_simp
  have m1: "media_sibling ?a ''01.lrc'' ''mp3'' = ''/music/ArtistX/Album [1985]/01.mp3''"
    and m2: "media_sibling ?a ''01.lrc'' ''m4a'' = ''/music/ArtistX/Album [1985]/01.m4a''"
    by code_simp+
  have x: "''mp3'' \<in> set EXTS_MEDIA" "''m4a'' \<in> set EXTS_MEDIA"
    by code_simp+
  have e1: "os_path_exists example_library ''/music/ArtistX/Album [1985]/01.mp3''"
    and e2: "\<not> os_path_exists example_library ''/music/ArtistX/Album [1985]/01.m4a''"
    by code_simp+
  have c1: "''/music/ArtistX/Album [1985]/01.lrc'' \<in> set example_selection"
    using t1 [THEN conjunct1] unfolding j .
  have c2: "''/music/ArtistX/Album [1985]/01.mp3'' \<in> set example_selection"
    using t1 [THEN conjunct2, rule_format, OF x(1)] e1 unfolding m1 by blast
  have c3: "''/music/ArtistX/Album [1985]/01.m4a'' \<notin> set example_selection"
    using t1 [THEN conjunct2, rule_format, OF x(2)] e2 unfolding m2 by blast
  have g2: "get_file_ext ''/music/ArtistX/Album [1985]/02.mp3'' \<in> set EXTS_MEDIA"
    by code_simp
  have s2: "fst (os_path_splitext ''/music/ArtistX/Album [1985]/02.mp3'') @ ''.lrc''
      = ''/music/ArtistX/Album [1985]/02.lrc''"
    by code_simp
  have n2: "''/music/ArtistX/Album [1985]/02.lrc'' \<notin> set example_selection"
    by code_simp
  have c4: "''/music/ArtistX/Album [1985]/02.mp3'' \<notin> set example_selection"
  proof
    assume "''/music/ArtistX/Album [1985]/02.mp3'' \<in> set example_selection"
    from t [THEN conjunct2, THEN conjunct2, THEN conjunct1, rule_format, OF this g2]
    show False using n2 unfolding s2 by blast
  qed
  have i1: "process_album_dir example_library ?i ''1980'' ''1989''
      = Inr [''/music/ArtistX/Instrumental [1987]/cover.jpg'']"
    by code_simp
  have i2: "passes_year_filter ?i ''1980'' ''1989''"
    by code_simp
  have i3: "os_walk example_library True ?i = [(?i, [], [''cover.jpg'', ''track.mp3''])]"
    by code_simp
  have i4: "\<forall>(root', dirs', files')\<in>set (os_walk example_library True ?i).
      \<forall>f'\<in>set files'. get_file_ext f' \<noteq> ''lrc''"
    by code_simp
  have g3: "get_file_ext ''/music/ArtistX/Instrumental [1987]/track.mp3'' \<in> set EXTS_MEDIA"
    by code_simp
  have c5: "''/music/ArtistX/Instrumental [1987]/track.mp3''
      \<notin> set [''/music/ArtistX/Instrumental [1987]/cover.jpg'']"
    using lyrics_and_media_selection [OF i1, THEN conjunct2, THEN conjunct2, THEN conjunct2,
        THEN mp, OF i4] g3
    by blast
  show ?thesis by (intro conjI h1 h2 h3 h4 h5 c1 c2 c3 g2 n2 c4 i1 i2 i3 g3 c5)
qed

section \<open>Cover art and extensions\<close>


text \<open>
  C7. In an album folder that passes the year filter, every file of the walk whose
  extension is \<open>jpg\<close> is selected, whether or not the folder holds a lyrics file.
\<close>

theorem art_selection:
  assumes "process_album_dir fs album_path min_year max_year = Inr ret"
    and "passes_year_filter album_path min_year max_year"
    and "(root, dirs, files) \<in> set (os_walk fs True album_path)"
    and "f \<in> set files"
    and "get_file_ext f = ''jpg''"
  shows "os_path_join root f \<in> set ret"
proof -
  have ret: "ret = select_walk fs (os_walk fs True album_path) []"
    using process_album_dir_result [OF assms(1)] assms(2) by simp
  have "os_path_join root f \<in> set (selected_for fs root f)"
    using assms(5) by (simp add: selected_for_def EXTS_LYRICS_def EXTS_ART_def)
  then show ?thesis
    unfolding ret in_select_walk_iff using assms(3,4) by blast
qed

theorem art_selection_witness:
  "process_album_dir example_library ''/music/ArtistX/Instrumental [1987]'' ''1980'' ''1989''
     = Inr [''/music/ArtistX/Instrumental [1987]/cover.jpg'']
   \<and> passes_year_filter ''/music/ArtistX/Instrumental [1987]'' ''1980'' ''1989''
   \<and> (''/music/ArtistX/Instrumental [1987]'', [], [''cover.jpg'', ''track.mp3''])
       \<in> set (os_walk example_library True ''/music/ArtistX/Instrumental [1987]'')
   \<and> ''cover.jpg'' \<in> set [''cover.jpg'', ''track.mp3'']
   \<and> get_file_ext ''cover.jpg'' = ''jpg''
   \<and> os_path_join ''/music/ArtistX/Instrumental [1987]'' ''cover.jpg''
       \<in> set [''/music/ArtistX/Instrumental [1987]/cover.jpg'']"
proof -
  let ?a = "''/music/ArtistX/Instrumental [1987]''"
  have h1: "process_album_dir example_library ?a ''1980'' ''1989''
      = Inr [''/music/ArtistX/Instrumental [1987]/cover.jpg'']"
    by code_simp
  have h2: "passes_year_filter ?a ''1980'' ''1989''"
    by code_simp
  have h3: "(?a, [], [''cover.jpg'', ''track.mp3'']) \<in> set (os_walk example_library True ?a)"
    by code_simp
  have h4: "''cover.jpg'' \<in> set [''cover.jpg'', ''track.mp3'']"
    by simp
  have h5: "get_file_ext ''cover.jpg'' = ''jpg''"
    by code_simp
  from art_selection [OF h1 h2 h3 h4 h5] h1 h2 h3 h4 h5 show ?thesis by blast
qed

text \<open>
  C9. Every path that the library walk selects has an extension among \<open>lrc\<close>, \<open>mp3\<close>,
  \<open>m4a\<close> and \<open>jpg\<close>, the configured lists taken together.
\<close>

theorem selection_extensions:
  assumes "walk_media_dir fs media_path min_year max_year = Inr files" and "p \<in> set files"
  shows "get_file_ext p \<in> {''lrc'', ''mp3'', ''m4a'', ''jpg''}
    \<and> set ALLOWED_EXTS = {''lrc'', ''mp3'', ''m4a'', ''jpg''}"
proof -
  have "set ALLOWED_EXTS = {''lrc'', ''mp3'', ''m4a'', ''jpg''}"
    by (auto simp: ALLOWED_EXTS_def EXTS_MEDIA_def EXTS_ART_def EXTS_LYRICS_def)
  with walk_media_dir_ext [OF assms] show ?thesis by simp
qed

theorem selection_extensions_witness:
  "walk_media_dir example_library ''/music'' ''1980'' ''1989''
     = Inr (example_selection @ [''/music/ArtistX/Instrumental [1987]/cover.jpg''])
   \<and> ''/music/ArtistX/Album [1985]/CD2/03.m4a''
       \<in> set (example_selection @ [''/music/ArtistX/Instrumental [1987]/cover.jpg''])
   \<and> get_file_ext ''/music/ArtistX/Album [1985]/CD2/03.m4a'' \<in> {''lrc'', ''mp3'', ''m4a'', ''jpg''}"
proof -
  have h1: "walk_media_dir example_library ''/music'' ''1980'' ''1989''
      = Inr (example_selection @ [''/music/ArtistX/Instrumental [1987]/cover.jpg''])"
    by code_simp
  have h2: "''/music/ArtistX/Album [1985]/CD2/03.m4a''
      \<in> set (example_selection @ [''/music/ArtistX/Instrumental [1987]/cover.jpg''])"
    by code_simp
  from selection_extensions [OF h1 h2] h1 h2 show ?thesis by blast
qed

section \<open>Missing extensions and year extraction\<close>


lemma dot_sep_not_letter: "\<not> is_letter CHR ''.'' \<and> \<not> is_letter sep"
  by (simp add: is_letter_def sep_def)

lemma letters_plain: "list_all is_letter r \<Longrightarrow> CHR ''.'' \<notin> set r \<and> sep \<notin> set r"
  using dot_sep_not_letter unfolding list_all_iff by blast

lemma get_file_ext_no_extension:
  assumes "CHR ''.'' \<notin> set (last (str_split sep p))
      \<or> (last (str_split sep p) \<noteq> [] \<and> hd (last (str_split sep p)) = CHR ''.''
          \<and> list_all is_letter (tl (last (str_split sep p))))"
  shows "get_file_ext p = []"
proof -
  let ?n = "last (str_split sep p)"
  from assms have "get_file_ext ?n = []"
  proof
    assume "CHR ''.'' \<notin> set ?n"
    then show ?thesis by (rule get_file_ext_nodot)
  next
    assume a: "?n \<noteq> [] \<and> hd ?n = CHR ''.'' \<and> list_all is_letter (tl ?n)"
    then have "?n = CHR ''.'' # tl ?n" by (cases ?n) auto
    moreover have "get_file_ext (CHR ''.'' # tl ?n) = []"
      using a letters_plain by (intro get_file_ext_dotfile) auto
    ultimately show ?thesis by simp
  qed
  then show ?thesis using get_file_ext_last_segment [of p] by simp
qed

lemma empty_ext_not_allowed: "[] \<notin> set ALLOWED_EXTS"
  by (simp add: ALLOWED_EXTS_def EXTS_MEDIA_def EXTS_ART_def EXTS_LYRICS_def)

text \<open>
  C10. For a path whose final name segment has no dot, or is a single dot followed by
  letters, \<^verbatim>\<open>get_file_ext\<close> returns the empty string; the empty string is in none of
  the three extension lists, and no album selection and no library walk selects the path.
\<close>

theorem no_extension_never_selected:
  assumes "CHR ''.'' \<notin> set (last (str_split sep p))
      \<or> (last (str_split sep p) \<noteq> [] \<and> hd (last (str_split sep p)) = CHR ''.''
          \<and> list_all is_letter (tl (last (str_split sep p))))"
  shows "get_file_ext p = []
    \<and> get_file_ext p \<notin> set EXTS_MEDIA \<and> get_file_ext p \<notin> set EXTS_ART
    \<and> get_file_ext p \<notin> set EXTS_LYRICS
    \<and> (\<forall>fs album_path min_year max_year ret.
          process_album_dir fs album_path min_year max_year = Inr ret \<longrightarrow> p \<notin> set ret)
    \<and> (\<forall>fs media_path min_year max_year files.
          walk_media_dir fs media_path min_year max_year = Inr files \<longrightarrow> p \<notin> set files)"
proof -
  have e: "get_file_ext p = []" using assms by (rule get_file_ext_no_extension)
  then have n: "get_file_ext p \<notin> set ALLOWED_EXTS" using empty_ext_not_allowed by simp
  then have "get_file_ext p \<notin> set EXTS_MEDIA" "get_file_ext p \<notin> set EXTS_ART"
    "get_file_ext p \<notin> set EXTS_LYRICS"
    by (simp_all add: ALLOWED_EXTS_def)
  moreover have "p \<notin> set ret"
    if "process_album_dir fs album_path min_year max_year = Inr ret"
    for fs album_path min_year max_year ret
    using process_album_dir_ext [OF that] n by blast
  moreover have "p \<notin> set files"
    if "walk_media_dir fs media_path min_year max_year = Inr files"
    for fs media_path min_year max_year files
    using walk_media_dir_ext [OF that] n by blast
  ultimately show ?thesis using e by blast
qed

theorem no_extension_never_selected_witness:
  "last (str_split sep ''/music/ArtistX/Album [1985]/.lrc'') \<noteq> []
   \<and> hd (last (str_split sep ''/music/ArtistX/Album [1985]/.lrc'')) = CHR ''.''
   \<and> list_all is_letter (tl (last (str_split sep ''/music/ArtistX/Album [1985]/.lrc'')))
   \<and> get_file_ext ''/music/ArtistX/Album [1985]/.lrc'' = []
   \<and> CHR ''.'' \<notin> set (last (str_split sep ''/music/ArtistX/Album [1985]/notes''))
   \<and> get_file_ext ''/music/ArtistX/Album [1985]/notes'' = []
   \<and> walk_media_dir example_library ''/music'' ''any'' ''any''
       = Inr (example_selection @ [''/music/ArtistX/Instrumental [1987]/cover.jpg'',
                ''/music/ArtistX/Live [1975]/a.lrc''])
   \<and> ''/music/ArtistX/Album [1985]/.lrc''
       \<notin> set (example_selection @ [''/music/ArtistX/Instrumental [1987]/cover.jpg'',
                ''/music/ArtistX/Live [1975]/a.lrc''])
   \<and> ''/music/ArtistX/Album [1985]/notes''
       \<notin> set (example_selection @ [''/music/ArtistX/Instrumental [1987]/cover.jpg'',
                ''/music/ArtistX/Live [1975]/a.lrc''])"
proof -
  let ?d = "''/music/ArtistX/Album [1985]/.lrc''" and ?n = "''/music/ArtistX/Album [1985]/notes''"
  let ?sel = "example_selection @ [''/music/ArtistX/Instrumental [1987]/cover.jpg'',
                ''/music/ArtistX/Live [1975]/a.lrc'']"
  have h1: "last (str_split sep ?d) \<noteq> []" "hd (last (str_split sep ?d)) = CHR ''.''"
    "list_all is_letter (tl (last (str_split sep ?d)))"
    by code_simp+
  have h2: "CHR ''.'' \<notin> set (last (str_split sep ?n))"
    by code_simp
  have w: "walk_media_dir example_library ''/music'' ''any'' ''any'' = Inr ?sel"
    by code_simp
  have a1: "CHR ''.'' \<notin> set (last (str_split sep ?d))
      \<or> (last (str_split sep ?d) \<noteq> [] \<and> hd (last (str_split sep ?d)) = CHR ''.''
          \<and> list_all is_letter (tl (last (str_split sep ?d))))"
    by (rule disjI2) (intro conjI h1)
  have a2: "CHR ''.'' \<notin> set (last (str_split sep ?n))
      \<or> (last (str_split sep ?n) \<noteq> [] \<and> hd (last (str_split sep ?n)) = CHR ''.''
          \<and> list_all is_letter (tl (last (str_split sep ?n))))"
    by (rule disjI1) (rule h2)
  note t1 = no_extension_never_selected [OF a1] and t2 = no_extension_never_selected [OF a2]
  have d1: "get_file_ext ?d = []" by (rule t1 [THEN conjunct1])
  have n1: "get_file_ext ?n = []" by (rule t2 [THEN conjunct1])
  have d2: "?d \<notin> set ?sel"
    by (rule t1 [THEN conjunct2, THEN conjunct2, THEN conjunct2, THEN conjunct2, THEN conjunct2,
          rule_format, OF w])
  have n2: "?n \<notin> set ?sel"
    by (rule t2 [THEN conjunct2, THEN conjunct2, THEN conjunct2, THEN conjunct2, THEN conjunct2,
          rule_format, OF w])
  show ?thesis by (intro conjI h1 h2 w d1 d2 n1 n2)
qed

lemma only_year_token_last: "only_year_token s i \<Longrightarrow> last_year_token s i"
proof -
  assume a: "only_year_token s i"
  have "j \<le> i" if t: "year_token_at s j" for j
  proof -
    from t have "j < length s" by (simp add: year_token_at_def)
    with a t show ?thesis by (auto simp: only_year_token_def list_all_iff)
  qed
  with a show ?thesis by (simp add: last_year_token_iff only_year_token_def)
qed

text \<open>
  C3. When the album name has a bracketed four-digit token, year extraction returns
  the integer that the digits of the rightmost such token denote; when the token is the
  only one, it returns the integer of that token.
\<close>

theorem year_of_last_token:
  "(last_year_token album_name i \<longrightarrow>
      parse_album_year album_name = Inr (decimal_value (take 4 (drop (Suc i) album_name))))
   \<and> (only_year_token album_name k \<longrightarrow>
      parse_album_year album_name = Inr (decimal_value (take 4 (drop (Suc k) album_name))))"
  using parse_album_year_last_token only_year_token_last by blast

theorem year_of_last_token_witness:
  "last_year_token ''Hits [1999] Remaster [2003]'' 21
   \<and> parse_album_year ''Hits [1999] Remaster [2003]'' = Inr 2003
   \<and> only_year_token ''Danseparc [1983]'' 10
   \<and> parse_album_year ''Danseparc [1983]'' = Inr 1983"
proof -
  have h1: "last_year_token ''Hits [1999] Remaster [2003]'' 21"
    by code_simp
  have h2: "only_year_token ''Danseparc [1983]'' 10"
    by code_simp
  have v1: "decimal_value (take 4 (drop (Suc 21) ''Hits [1999] Remaster [2003]'')) = 2003"
    by code_simp
  have v2: "decimal_value (take 4 (drop (Suc 10) ''Danseparc [1983]'')) = 1983"
    by code_simp
  have "parse_album_year ''Hits [1999] Remaster [2003]''
      = Inr (decimal_value (take 4 (drop (Suc 21) ''Hits [1999] Remaster [2003]'')))"
    by (rule year_of_last_token [THEN conjunct1, rule_format, OF h1])
  then have c1: "parse_album_year ''Hits [1999] Remaster [2003]'' = Inr 2003"
    by (simp only: v1)
  have "parse_album_year ''Danseparc [1983]''
      = Inr (decimal_value (take 4 (drop (Suc 10) ''Danseparc [1983]'')))"
    by (rule year_of_last_token [THEN conjunct2, rule_format, OF h2])
  then have c2: "parse_album_year ''Danseparc [1983]'' = Inr 1983"
    by (simp only: v2)
  show ?thesis by (intro conjI h1 h2 c1 c2)
qed

section \<open>Fatal albums, the year filter and the depth of the library root\<close>



text \<open>
  C4. When the first album folder of the library walk whose name has no bracketed
  four-digit token is reached, the walk stops there: its result is the exit with status
  1, after the album name and the message of the \<open>IndexError\<close> have been printed; no
  later folder is processed. (The year bounds are \<open>any\<close> or integer literals.)
\<close>

theorem unparsable_album_aborts:
  assumes "album_dirs fs media_path = before @ d # later"
    and "\<forall>p\<in>set before. has_year_token (album_name_of p)"
    and "\<not> has_year_token (album_name_of d)"
    and "min_year = ''any'' \<or> py_int min_year \<noteq> None"
    and "max_year = ''any'' \<or> py_int max_year \<noteq> None"
  shows "process_album_dir fs d min_year max_year
      = Inl (SystemExit 1 [''Exception processing album: '' @ album_name_of d,
                           ''list index out of range''])
    \<and> walk_media_dir fs media_path min_year max_year
      = Inl (SystemExit 1 [''Exception processing album: '' @ album_name_of d,
                           ''list index out of range''])"
proof -
  have mem: "p \<in> set (album_dirs fs media_path)" if "p \<in> set before \<or> p = d" for p
    using that assms(1) by auto
  have ok: "\<forall>p\<in>set before. \<exists>sel. process_album_dir fs p min_year max_year = Inr sel"
  proof
    fix p assume p: "p \<in> set before"
    then have "2 \<le> length (str_split sep p)" using mem album_dirs_tokens by blast
    moreover have "has_year_token (album_name_of p)" using p assms(2) by blast
    ultimately show "\<exists>sel. process_album_dir fs p min_year max_year = Inr sel"
      using assms(4,5) by (rule process_album_dir_token_ok)
  qed
  have "2 \<le> length (str_split sep d)" using mem album_dirs_tokens by blast
  from process_album_dir_no_token [OF this assms(3)]
  have bad: "process_album_dir fs d min_year max_year
      = Inl (SystemExit 1 [''Exception processing album: '' @ album_name_of d,
                           ''list index out of range''])" .
  from process_albums_first_error [OF ok bad] assms(1) bad show ?thesis
    by (simp add: walk_media_dir_eq)
qed

theorem unparsable_album_aborts_witness:
  "album_dirs untitled_library ''/music''
     = [''/music/ArtistX/Album [1985]''] @ ''/music/ArtistX/Untitled'' # [''/music/ArtistX/Later [1999]'']
   \<and> has_year_token (album_name_of ''/music/ArtistX/Album [1985]'')
   \<and> \<not> has_year_token (album_name_of ''/music/ArtistX/Untitled'')
   \<and> (''1980'' = ''any'' \<or> py_int ''1980'' \<noteq> None)
   \<and> (''1989'' = ''any'' \<or> py_int ''1989'' \<noteq> None)
   \<and> walk_media_dir untitled_library ''/music'' ''1980'' ''1989''
       = Inl (SystemExit 1 [''Exception processing album: Untitled'', ''list index out of range''])"
proof -
  have h1: "album_dirs untitled_library ''/music''
     = [''/music/ArtistX/Album [1985]''] @ ''/music/ArtistX/Untitled'' # [''/music/ArtistX/Later [1999]'']"
    by code_simp
  have h2': "has_year_token (album_name_of ''/music/ArtistX/Album [1985]'')"
    by code_simp
  then have h2: "\<forall>p\<in>set [''/music/ArtistX/Album [1985]'']. has_year_token (album_name_of p)"
    by simp
  have h3: "\<not> has_year_token (album_name_of ''/music/ArtistX/Untitled'')"
    by code_simp
  have h4: "''1980'' = ''any'' \<or> py_int ''1980'' \<noteq> None"
    by code_simp
  have h5: "''1989'' = ''any'' \<or> py_int ''1989'' \<noteq> None"
    by code_simp
  have n: "album_name_of ''/music/ArtistX/Untitled'' = ''Untitled''"
    by code_simp
  have c: "walk_media_dir untitled_library ''/music'' ''1980'' ''1989''
       = Inl (SystemExit 1 [''Exception processing album: Untitled'', ''list index out of range''])"
    using unparsable_album_aborts [OF h1 h2 h3 h4 h5, THEN conjunct2] unfolding n by simp
  show ?thesis by (intro conjI h1 h2' h3 h4 h5 c)
qed

text \<open>
  C5. For an album folder whose year parses: with both bounds \<open>any\<close> the folder passes
  the filter; with bounds that are \<open>any\<close> or integer literals it passes exactly when the
  year is at least the lower and at most the upper bound, so a year equal to either bound
  of a non-empty range passes; and a year outside the range gives the empty selection,
  not an error.
\<close>

theorem year_filter_inclusive:
  assumes "2 \<le> length (str_split sep album_path)"
    and "parse_album_year (album_name_of album_path) = Inr y"
  shows "process_album_dir fs album_path ''any'' ''any''
      = Inr (select_walk fs (os_walk fs True album_path) [])
    \<and> ((min_year = ''any'' \<or> py_int min_year = Some lo)
        \<and> (max_year = ''any'' \<or> py_int max_year = Some hi) \<longrightarrow>
       process_album_dir fs album_path min_year max_year
         = Inr (if (min_year = ''any'' \<or> lo \<le> y) \<and> (max_year = ''any'' \<or> y \<le> hi)
                then select_walk fs (os_walk fs True album_path) [] else []))
    \<and> (py_int min_year = Some lo \<and> py_int max_year = Some hi \<and> lo \<le> hi \<and> (y = lo \<or> y = hi) \<longrightarrow>
       process_album_dir fs album_path min_year max_year
         = Inr (select_walk fs (os_walk fs True album_path) []))
    \<and> (py_int min_year = Some lo \<and> py_int max_year = Some hi \<and> (y < lo \<or> hi < y) \<longrightarrow>
       process_album_dir fs album_path min_year max_year = Inr [])"
proof -
  note parsed = process_album_dir_parsed [OF assms]
  have any: "year_in_range y ''any'' ''any'' = Inr True"
    by (simp add: year_in_range_def)
  have a: "process_album_dir fs album_path ''any'' ''any''
      = Inr (select_walk fs (os_walk fs True album_path) [])"
    using parsed [OF any] by simp
  have b: "process_album_dir fs album_path min_year max_year
         = Inr (if (min_year = ''any'' \<or> lo \<le> y) \<and> (max_year = ''any'' \<or> y \<le> hi)
                then select_walk fs (os_walk fs True album_path) [] else [])"
    if "min_year = ''any'' \<or> py_int min_year = Some lo"
      and "max_year = ''any'' \<or> py_int max_year = Some hi"
    using parsed [OF year_in_range_bounds [OF that]] .
  have c: "process_album_dir fs album_path min_year max_year
         = Inr (select_walk fs (os_walk fs True album_path) [])"
    if "py_int min_year = Some lo" and "py_int max_year = Some hi" and "lo \<le> hi"
      and "y = lo \<or> y = hi"
    using b that by auto
  have d: "process_album_dir fs album_path min_year max_year = Inr []"
    if "py_int min_year = Some lo" and "py_int max_year = Some hi" and "y < lo \<or> hi < y"
  proof -
    from that(1,2) have "min_year \<noteq> ''any''" "max_year \<noteq> ''any''"
      using py_int_any by auto
    with b that show ?thesis by auto
  qed
  from a b c d show ?thesis by blast
qed

theorem year_filter_inclusive_witness:
  "2 \<le> length (str_split sep ''/music/ArtistX/Live [1975]'')
   \<and> parse_album_year (album_name_of ''/music/ArtistX/Live [1975]'') = Inr 1975
   \<and> py_int ''1975'' = Some 1975 \<and> py_int ''1980'' = Some 1980 \<and> py_int ''1989'' = Some 1989
   \<and> process_album_dir example_library ''/music/ArtistX/Live [1975]'' ''any'' ''any''
       = Inr [''/music/ArtistX/Live [1975]/a.lrc'']
   \<and> process_album_dir example_library ''/music/ArtistX/Live [1975]'' ''1975'' ''1989''
       = Inr [''/music/ArtistX/Live [1975]/a.lrc'']
   \<and> process_album_dir example_library ''/music/ArtistX/Live [1975]'' ''1980'' ''1989'' = Inr []"
proof -
  let ?a = "''/music/ArtistX/Live [1975]''"
  have h1: "2 \<le> length (str_split sep ?a)"
    by code_simp
  have h2: "parse_album_year (album_name_of ?a) = Inr 1975"
    by code_simp
  have p: "py_int ''1975'' = Some 1975" "py_int ''1980'' = Some 1980" "py_int ''1989'' = Some 1989"
    by code_simp+
  have s: "select_walk example_library (os_walk example_library True ?a) []
      = [''/music/ArtistX/Live [1975]/a.lrc'']"
    by code_simp
  note t = year_filter_inclusive [OF h1 h2, of example_library]
  have c1: "process_album_dir example_library ?a ''any'' ''any''
      = Inr [''/music/ArtistX/Live [1975]/a.lrc'']"
    using t [THEN conjunct1] unfolding s .
  have c2: "process_album_dir example_library ?a ''1975'' ''1989''
      = Inr [''/music/ArtistX/Live [1975]/a.lrc'']"
    using t [of "''1975''" 1975 "''1989''" 1989, THEN conjunct2, THEN conjunct2, THEN conjunct1]
      p unfolding s by simp
  have c3: "process_album_dir example_library ?a ''1980'' ''1989'' = Inr []"
    using t [of "''1980''" 1980 "''1989''" 1989, THEN conjunct2, THEN conjunct2, THEN conjunct2] p
    by simp
  show ?thesis by (intro conjI h1 h2 p c1 c2 c3)
qed

lemma segment_depth_eq:
  "[] \<notin> set (str_split sep (str_strip [sep] path)) \<Longrightarrow> segment_depth path = get_path_depth path"
proof -
  assume "[] \<notin> set (str_split sep (str_strip [sep] path))"
  then have "filter (\<lambda>seg. seg \<noteq> []) (str_split sep (str_strip [sep] path))
      = str_split sep (str_strip [sep] path)"
    by (intro filter_True) auto
  then show ?thesis by (simp add: segment_depth_def get_path_depth_def)
qed

text \<open>
  C6. A directory of the library walk is to be processed as an album folder exactly when
  the number of non-empty segments of its trimmed path exceeds that of the library root
  by 2. The code compares \<^verbatim>\<open>get_path_depth\<close>, and processes exactly the directories
  for which it exceeds that of the root by 2 (\<open>walk_media_dir_eq\<close>); it counts the
  segments of the trimmed path, empty ones too, and agrees with the number of non-empty
  segments when none is empty (\<open>segment_depth_eq\<close>). The trimmed root \<open>/\<close> is one empty
  segment: its count is 1 where the number of non-empty segments is 0. The album folder
  \<open>/ArtistX/Album [1985]\<close>, two non-empty segments below that root, is therefore at
  computed depth 1 and is not processed, while the same library under \<open>/music\<close> is
  selected; and a directory three non-empty segments below the root \<open>/\<close> is at computed
  depth 2 and is processed as an album folder.
\<close>

theorem root_library_not_selected:
  "candidate_dirs root_library ''/'' = [''/ArtistX/Album [1985]'', ''/ArtistX'']
   \<and> segment_depth ''/ArtistX/Album [1985]'' - segment_depth ''/'' = 2
   \<and> get_path_depth ''/ArtistX/Album [1985]'' - get_path_depth ''/'' = 1
   \<and> album_dirs root_library ''/'' = []
   \<and> walk_media_dir root_library ''/'' ''any'' ''any'' = Inr []
   \<and> walk_media_dir (Dir [(''music'', root_library)]) ''/music'' ''any'' ''any''
       = Inr [''/music/ArtistX/Album [1985]/01.lrc'', ''/music/ArtistX/Album [1985]/01.mp3'']
   \<and> segment_depth ''/ArtistX/Album [1985]/Bonus [1999]'' - segment_depth ''/'' = 3
   \<and> walk_media_dir root_library_discs ''/'' ''any'' ''any''
       = Inr [''/ArtistX/Album [1985]/Bonus [1999]/02.lrc'']"
  by code_simp

end
